theory Spec2Isabelle
  imports Main "HOL-Library.Word"
begin

section \<open>The ExplorIR CO2 sensor driver (explorir.h, explorir.c)\<close>

text \<open>
  The driver keeps one \<open>explorir_handler_t\<close> per sensor. Bytes are modelled as
  \<^typ>\<open>char\<close> (eight bits), the receive buffer \<open>explorir_data\<close> as a \<^typ>\<open>string\<close> of
  \<open>UART_RX_BUF_SIZE\<close> bytes. C leaves an access outside an object undefined; the
  model makes each such access a value of type \<open>fault\<close>, so that a run either returns
  a state, or stops at its first fault, or (the scanner's loop) never returns.
\<close>

subsection \<open>Constants and types of explorir.h\<close>

definition UART_RX_BUF_SIZE :: nat where
  "UART_RX_BUF_SIZE = 128"

definition RESPONSE_TIMEOUT :: nat where
  "RESPONSE_TIMEOUT = 0x989680"

definition MAX_DIGITAL_FILTER :: nat where
  "MAX_DIGITAL_FILTER = 65365"

definition MIN_DIGITAL_FILTER :: nat where
  "MIN_DIGITAL_FILTER = 0"

definition DIGITAL_FILTER_DEFAULT :: nat where
  "DIGITAL_FILTER_DEFAULT = 16"

abbreviation NUL :: char where "NUL \<equiv> CHR 0x00"
abbreviation CR :: char where "CR \<equiv> CHR 0x0D"
abbreviation LF :: char where "LF \<equiv> CHR 0x0A"

abbreviation SET_DIGITAL_FILTER :: char where "SET_DIGITAL_FILTER \<equiv> CHR ''A''"
abbreviation GET_DIGITAL_FILTER :: char where "GET_DIGITAL_FILTER \<equiv> CHR ''a''"
abbreviation FINE_TUNE_ZERO_POINT :: char where "FINE_TUNE_ZERO_POINT \<equiv> CHR ''F''"
abbreviation SET_ZERO_POINT_USING_FRESH_AIR :: char where
  "SET_ZERO_POINT_USING_FRESH_AIR \<equiv> CHR ''G''"
abbreviation OPERATION_MODE :: char where "OPERATION_MODE \<equiv> CHR ''K''"
abbreviation SET_PRESSURE_AND_CONCENTRATION_COMPENSATION :: char where
  "SET_PRESSURE_AND_CONCENTRATION_COMPENSATION \<equiv> CHR ''S''"
abbreviation GET_PRESSURE_AND_CONCENTRATION_COMPENSATION :: char where
  "GET_PRESSURE_AND_CONCENTRATION_COMPENSATION \<equiv> CHR ''s''"
abbreviation SET_ZERO_POINT_USING_NITROGEN :: char where
  "SET_ZERO_POINT_USING_NITROGEN \<equiv> CHR ''U''"
abbreviation MANUALLY_SET_ZERO_POINT :: char where "MANUALLY_SET_ZERO_POINT \<equiv> CHR ''u''"
abbreviation SET_ZERO_POINT_USING_KNOWN_GAS :: char where
  "SET_ZERO_POINT_USING_KNOWN_GAS \<equiv> CHR ''X''"
abbreviation FILTERED_CO2_MEASUREMENT :: char where "FILTERED_CO2_MEASUREMENT \<equiv> CHR ''Z''"
abbreviation UNFILTERED_CO2_MEASUREMENT :: char where
  "UNFILTERED_CO2_MEASUREMENT \<equiv> CHR ''z''"
abbreviation SCALING_FACTOR :: char where "SCALING_FACTOR \<equiv> CHR ''.''"
abbreviation TERMINATE :: char where "TERMINATE \<equiv> LF"
abbreviation SPACE :: char where "SPACE \<equiv> CHR '' ''"

text \<open>\<open>explorir_mode_t\<close>: the scanner stores whatever \<open>atoi\<close> returns into
  \<open>current_mode\<close>, so the mode is kept as the enum's integer value.\<close>

definition EXPLORIR_MODE_COMMAND :: int where "EXPLORIR_MODE_COMMAND = 0"
definition EXPLORIR_MODE_STREAMING :: int where "EXPLORIR_MODE_STREAMING = 1"
definition EXPLORIR_MODE_POLLING :: int where "EXPLORIR_MODE_POLLING = 2"
definition EXPLORIR_MODE_DEFAULT :: int where "EXPLORIR_MODE_DEFAULT = EXPLORIR_MODE_COMMAND"

datatype explorir_retcode_t =
    EXPLORIR_ERR_INVALID_MODE
  | EXPLORIR_ERR_TIMEOUT
  | EXPLORIR_ERR_UNRECOGNIZED_COMMAND
  | EXPLORIR_ERR_INVALID_INPUT
  | EXPLORIR_SUCCESS

text \<open>The struct without its \<open>explorir_tx\<close> function pointer: what the host's
  callback is handed appears in the trace of each operation instead.\<close>

record explorir_handler_t =
  explorir_data :: string
  err_code :: explorir_retcode_t
  scaling_factor :: "16 word"
  current_filtered_co2 :: "32 word"
  current_unfiltered_co2 :: "32 word"
  digital_filter :: "32 word"
  zero_point :: "32 word"
  pressure_and_concentration_compensation :: "32 word"
  current_mode :: int

datatype fault =
    ReadPastBuffer      \<comment> \<open>a read of \<open>explorir_data[i]\<close> with \<open>i\<close> outside the array\<close>
  | WritePastBuffer     \<comment> \<open>\<open>memcpy\<close> into \<open>explorir_data\<close> beyond its end\<close>
  | ReadPastArray       \<comment> \<open>a read beyond a local array (\<open>atoi\<close> finds no terminator)\<close>
  | WritePastArray      \<comment> \<open>\<open>sprintf\<close> writes beyond the object it was given\<close>

subsection \<open>The C library functions the driver calls\<close>

text \<open>\<open>isspace\<close> and \<open>isdigit\<close> in the C locale.\<close>

definition isspace :: "char \<Rightarrow> bool" where
  "isspace c \<longleftrightarrow> c = CHR '' '' \<or> (9 \<le> (of_char c :: nat) \<and> (of_char c :: nat) \<le> 13)"

definition isdigit :: "char \<Rightarrow> bool" where
  "isdigit c \<longleftrightarrow> 48 \<le> (of_char c :: nat) \<and> (of_char c :: nat) \<le> 57"

text \<open>
  \<open>atoi\<close> skips white space, takes an optional sign, then reads decimal digits up to
  the first byte that is not a digit. The driver hands it a five-byte array that
  \<open>memcpy\<close> has filled completely, so there is no terminating NUL of the array's own:
  when all the bytes left are consumed, \<open>atoi\<close> reads the byte after the array.
\<close>

fun atoi_digits :: "int \<Rightarrow> string \<Rightarrow> fault + int" where
  "atoi_digits acc [] = Inl ReadPastArray"
| "atoi_digits acc (c # cs) =
     (if isdigit c then atoi_digits (acc * 10 + (of_char c - 48)) cs else Inr acc)"

fun atoi_sign :: "string \<Rightarrow> fault + int" where
  "atoi_sign [] = Inl ReadPastArray"
| "atoi_sign (c # cs) =
     (if c = CHR ''-'' then map_sum id uminus (atoi_digits 0 cs)
      else if c = CHR ''+'' then atoi_digits 0 cs
      else atoi_digits 0 (c # cs))"

fun atoi :: "string \<Rightarrow> fault + int" where
  "atoi [] = Inl ReadPastArray"
| "atoi (c # cs) = (if isspace c then atoi cs else atoi_sign (c # cs))"

subsection \<open>explorir_process_response\<close>

text \<open>
  The cursor \<open>i\<close> is a \<open>uint16_t\<close> in the source. Every read of
  \<open>explorir_data[i]\<close> with \<open>i\<close> at or beyond the end of the array is a fault here, so
  the cursor never comes near 65536 and a natural number models it.

  \<open>while(explorir_data[i] == '0') i++;\<close>
\<close>

function skip_zeros :: "string \<Rightarrow> nat \<Rightarrow> fault + nat" where
  "skip_zeros d i =
     (if length d \<le> i then Inl ReadPastBuffer
      else if d ! i = CHR ''0'' then skip_zeros d (i + 1)
      else Inr i)"
  by pat_completeness auto
termination
  by (relation "measure (\<lambda>(d, i). length d - i)") auto

declare skip_zeros.simps [simp del]

text \<open>\<open>memcpy(field, &explorir_data[i], 5)\<close>: reads the five bytes from \<open>i\<close> on.\<close>

definition memcpy5 :: "string \<Rightarrow> nat \<Rightarrow> fault + string" where
  "memcpy5 d i = (if i + 5 \<le> length d then Inr (take 5 (drop i d)) else Inl ReadPastBuffer)"

text \<open>
  Every tag's case of the switch starts with the same four statements: \<open>i += 2\<close>, the
  loop over leading zeros, the \<open>memcpy\<close> of five bytes into a local array of five, and
  \<open>atoi\<close> of that array.
\<close>

definition read_field :: "string \<Rightarrow> nat \<Rightarrow> fault + int" where
  "read_field d i =
     (case skip_zeros d (i + 2) of
        Inl e \<Rightarrow> Inl e
      | Inr j \<Rightarrow> (case memcpy5 d j of Inl e \<Rightarrow> Inl e | Inr field \<Rightarrow> atoi field))"

text \<open>
  The \<open>while\<close> loop with its \<open>switch\<close>. \<open>None\<close> is a loop that never ends. The two CO2
  products are computed in \<open>int\<close> (\<open>scaling_factor\<close> is promoted) and converted to
  \<open>uint32_t\<close> by the assignment; \<open>atoi\<close> returns at most four digits and a sign here,
  so the product is within \<open>int\<close> (lemma \<open>field_product_within_int\<close> below).
\<close>

partial_function (option) scan :: "nat \<Rightarrow> explorir_handler_t \<Rightarrow> (fault + explorir_handler_t) option"
where
  "scan i h =
     (if length (explorir_data h) \<le> i then Some (Inl ReadPastBuffer)
      else if explorir_data h ! i = TERMINATE then Some (Inr h)
      else if explorir_data h ! i = SCALING_FACTOR then
        (case read_field (explorir_data h) i of
           Inl e \<Rightarrow> Some (Inl e)
         | Inr v \<Rightarrow> Some (Inr (h\<lparr>scaling_factor := word_of_int v\<rparr>)))
      else if explorir_data h ! i = FILTERED_CO2_MEASUREMENT then
        (case read_field (explorir_data h) i of
           Inl e \<Rightarrow> Some (Inl e)
         | Inr v \<Rightarrow>
             scan 9 (h\<lparr>current_filtered_co2 := word_of_int (v * uint (scaling_factor h))\<rparr>))
      else if explorir_data h ! i = UNFILTERED_CO2_MEASUREMENT then
        (case read_field (explorir_data h) i of
           Inl e \<Rightarrow> Some (Inl e)
         | Inr v \<Rightarrow>
             Some (Inr (h\<lparr>current_unfiltered_co2 :=
                            word_of_int (v * uint (scaling_factor h))\<rparr>)))
      else if explorir_data h ! i = OPERATION_MODE then
        (case read_field (explorir_data h) i of
           Inl e \<Rightarrow> Some (Inl e)
         | Inr v \<Rightarrow> Some (Inr (h\<lparr>current_mode := v\<rparr>)))
      else if explorir_data h ! i = SET_DIGITAL_FILTER
            \<or> explorir_data h ! i = GET_DIGITAL_FILTER then
        (case read_field (explorir_data h) i of
           Inl e \<Rightarrow> Some (Inl e)
         | Inr v \<Rightarrow> Some (Inr (h\<lparr>digital_filter := word_of_int v\<rparr>)))
      else if explorir_data h ! i = FINE_TUNE_ZERO_POINT
            \<or> explorir_data h ! i = SET_ZERO_POINT_USING_FRESH_AIR
            \<or> explorir_data h ! i = SET_ZERO_POINT_USING_KNOWN_GAS
            \<or> explorir_data h ! i = SET_ZERO_POINT_USING_NITROGEN
            \<or> explorir_data h ! i = MANUALLY_SET_ZERO_POINT then
        (case read_field (explorir_data h) i of
           Inl e \<Rightarrow> Some (Inl e)
         | Inr v \<Rightarrow> Some (Inr (h\<lparr>zero_point := word_of_int v\<rparr>)))
      else if explorir_data h ! i = SET_PRESSURE_AND_CONCENTRATION_COMPENSATION
            \<or> explorir_data h ! i = GET_PRESSURE_AND_CONCENTRATION_COMPENSATION then
        (case read_field (explorir_data h) i of
           Inl e \<Rightarrow> Some (Inl e)
         | Inr v \<Rightarrow> Some (Inr (h\<lparr>pressure_and_concentration_compensation := word_of_int v\<rparr>)))
      else if explorir_data h ! i = SPACE then scan (i + 1) h
      else scan (i + 1) h)"

text \<open>After the loop, at \<open>EndWhile\<close>, \<open>memset\<close> clears the whole buffer.\<close>

definition explorir_process_response ::
  "explorir_handler_t \<Rightarrow> (fault + explorir_handler_t) option" where
  "explorir_process_response h =
     (case scan 0 h of
        None \<Rightarrow> None
      | Some (Inl e) \<Rightarrow> Some (Inl e)
      | Some (Inr h') \<Rightarrow> Some (Inr (h'\<lparr>explorir_data := replicate UART_RX_BUF_SIZE NUL\<rparr>)))"

declare scan.simps [code]

subsection \<open>explorir_update_data and explorir_wait_for_response\<close>

text \<open>\<open>memcpy(explorir_data, p_response, size)\<close> with \<open>size\<close> a \<open>uint8_t\<close>, here
  \<open>sz\<close>: nothing keeps it within the buffer or within the response.\<close>

definition explorir_update_data ::
  "string \<Rightarrow> 8 word \<Rightarrow> explorir_handler_t \<Rightarrow> fault + explorir_handler_t" where
  "explorir_update_data p_response sz h =
     (if length p_response < unat sz then Inl ReadPastArray
      else if length (explorir_data h) < unat sz then Inl WritePastBuffer
      else Inr (h\<lparr>explorir_data :=
                    take (unat sz) p_response @ drop (unat sz) (explorir_data h)\<rparr>))"

text \<open>
  The flag \<open>explorir_complete_uart_rx\<close> is set by the host's receive path and read once
  per iteration of the loop; \<open>rx k\<close> is the value the read with \<open>timer = k\<close> sees. The
  flag itself is not part of the handler, so its reset after the loop leaves no trace
  in the state.
\<close>

function wait_loop :: "(nat \<Rightarrow> bool) \<Rightarrow> nat \<Rightarrow> explorir_handler_t \<Rightarrow> explorir_handler_t" where
  "wait_loop rx timer h =
     (if rx timer then h
      else if RESPONSE_TIMEOUT \<le> timer then h\<lparr>err_code := EXPLORIR_ERR_TIMEOUT\<rparr>
      else wait_loop rx (timer + 1) h)"
  by pat_completeness auto
termination
  by (relation "measure (\<lambda>(rx, timer, h). RESPONSE_TIMEOUT - timer)") auto

declare wait_loop.simps [simp del]

definition explorir_wait_for_response ::
  "(nat \<Rightarrow> bool) \<Rightarrow> explorir_handler_t \<Rightarrow> explorir_handler_t" where
  "explorir_wait_for_response rx h = wait_loop rx 0 h"

subsection \<open>The host: transmit callback and receive path\<close>

text \<open>
  A run of an operation is the list of frames it handed to \<open>explorir_tx\<close>, in order,
  and how it ended: \<open>Some (Inr x)\<close> returned \<open>x\<close>, \<open>Some (Inl e)\<close> stopped at the
  fault \<open>e\<close>, \<open>None\<close> never returned. The frames sent before a fault stay visible.
\<close>

type_synonym 'a run = "string list \<times> (fault + 'a) option"

text \<open>
  Besides the handler, the world holds what the host's receive path will do: the
  call of \<open>explorir_wait_for_response\<close> before every \<open>explorir_process_response\<close> is
  commented out in the source, so the driver does not wait there; the host may or may
  not have called \<open>explorir_update_data\<close> by then. \<open>incoming\<close> lists, for each such
  place in turn, the response delivered (\<open>Some\<close>) or that none was (\<open>None\<close>).
\<close>

record world =
  handler :: explorir_handler_t
  incoming :: "string option list"

definition host_delivery :: "world \<Rightarrow> fault + world" where
  "host_delivery w =
     (case incoming w of
        [] \<Rightarrow> Inr w
      | None # rest \<Rightarrow> Inr (w\<lparr>incoming := rest\<rparr>)
      | Some r # rest \<Rightarrow>
          (case explorir_update_data r (of_nat (length r)) (handler w) of
             Inl e \<Rightarrow> Inl e
           | Inr h' \<Rightarrow> Inr \<lparr>handler = h', incoming = rest\<rparr>))"

text \<open>\<open>explorir_handler->explorir_tx(msg, size)\<close>: the callback is given the first
  \<open>size\<close> bytes of \<open>msg\<close> (\<open>sz\<close> here).\<close>

definition explorir_tx :: "string \<Rightarrow> nat \<Rightarrow> fault + string" where
  "explorir_tx msg sz = (if sz \<le> length msg then Inr (take sz msg) else Inl ReadPastArray)"

text \<open>The statement \<open>explorir_process_response(explorir_handler);\<close> of an operation,
  with the host's delivery, if any, before it.\<close>

definition process_response_step :: "world \<Rightarrow> (fault + world) option" where
  "process_response_step w =
     (case host_delivery w of
        Inl e \<Rightarrow> Some (Inl e)
      | Inr w1 \<Rightarrow>
          (case explorir_process_response (handler w1) of
             None \<Rightarrow> None
           | Some (Inl e) \<Rightarrow> Some (Inl e)
           | Some (Inr h') \<Rightarrow> Some (Inr (w1\<lparr>handler := h'\<rparr>))))"

text \<open>
  The three statements that end nearly every operation: transmit the message, process
  the response, return \<open>err_code\<close>.
\<close>

definition transmit_and_process ::
  "string \<Rightarrow> nat \<Rightarrow> world \<Rightarrow> (explorir_retcode_t \<times> world) run" where
  "transmit_and_process msg sz w =
     (case explorir_tx msg sz of
        Inl e \<Rightarrow> ([], Some (Inl e))
      | Inr frame \<Rightarrow>
          ([frame],
           (case process_response_step w of
              None \<Rightarrow> None
            | Some (Inl e) \<Rightarrow> Some (Inl e)
            | Some (Inr w') \<Rightarrow> Some (Inr (err_code (handler w'), w')))))"

text \<open>A C string literal initialises the array with its characters and a final NUL.\<close>

definition c_string :: "string \<Rightarrow> string" where
  "c_string s = s @ [NUL]"

subsection \<open>Requests without arguments\<close>

definition explorir_request_filtered_co2 :: "world \<Rightarrow> (explorir_retcode_t \<times> world) run" where
  "explorir_request_filtered_co2 w = transmit_and_process (c_string (''Z'' @ [CR, LF])) 3 w"

definition explorir_request_scaling_factor :: "world \<Rightarrow> (explorir_retcode_t \<times> world) run" where
  "explorir_request_scaling_factor w = transmit_and_process (c_string (''.'' @ [CR, LF])) 3 w"

definition explorir_request_pressure_and_concetration_compensation ::
  "world \<Rightarrow> (explorir_retcode_t \<times> world) run" where
  "explorir_request_pressure_and_concetration_compensation w =
     transmit_and_process (c_string (''s'' @ [CR, LF])) 3 w"

definition explorir_set_output_data_all :: "world \<Rightarrow> (explorir_retcode_t \<times> world) run" where
  "explorir_set_output_data_all w = transmit_and_process (c_string (''M 00006'' @ [CR, LF])) 9 w"

text \<open>\<open>explorir_request_sensor_info\<close> processes two responses after its one frame.\<close>

definition explorir_request_sensor_info :: "world \<Rightarrow> (explorir_retcode_t \<times> world) run" where
  "explorir_request_sensor_info w =
     (case explorir_tx (c_string (''Y'' @ [CR, LF])) 3 of
        Inl e \<Rightarrow> ([], Some (Inl e))
      | Inr frame \<Rightarrow>
          ([frame],
           (case process_response_step w of
              None \<Rightarrow> None
            | Some (Inl e) \<Rightarrow> Some (Inl e)
            | Some (Inr w1) \<Rightarrow>
                (case process_response_step w1 of
                   None \<Rightarrow> None
                 | Some (Inl e) \<Rightarrow> Some (Inl e)
                 | Some (Inr w2) \<Rightarrow> Some (Inr (err_code (handler w2), w2))))))"

subsection \<open>Operations with arguments\<close>

text \<open>\<open>sprintf(buf, "%d", n)\<close> for \<open>n \<ge> 0\<close>: the decimal digits of \<open>n\<close>, most
  significant first, followed by a NUL; it returns the number of digits.\<close>

definition digit_char :: "nat \<Rightarrow> char" where
  "digit_char k = char_of (48 + k)"

fun decimal :: "nat \<Rightarrow> string" where
  "decimal n = (if n < 10 then [digit_char n] else decimal (n div 10) @ [digit_char (n mod 10)])"

declare decimal.simps [simp del]

text \<open>The object written to has \<open>cap\<close> bytes; the digits and the NUL must fit.\<close>

definition sprintf_d :: "nat \<Rightarrow> nat \<Rightarrow> fault + string" where
  "sprintf_d cap n =
     (if length (decimal n) + 1 \<le> cap then Inr (decimal n) else Inl WritePastArray)"

text \<open>
  The block under \<open>// compile message\<close>: an array of \<open>msg_size = 4 + str_size\<close> bytes,
  the tag, a space, the loop copying \<open>buf[i]\<close> to \<open>msg[i+2]\<close>, then CR and LF in the
  last two places.
\<close>

definition compile_message :: "char \<Rightarrow> string \<Rightarrow> string" where
  "compile_message tag buf =
     (let str_size = length buf;
          msg_size = 4 + str_size;
          msg = (replicate msg_size NUL)[0 := tag, 1 := SPACE];
          msg = fold (\<lambda>i m. m[i + 2 := buf ! i]) [0..<str_size] msg
      in msg[msg_size - 2 := CR, msg_size - 1 := LF])"

definition explorir_set_operation_mode ::
  "int \<Rightarrow> world \<Rightarrow> (explorir_retcode_t \<times> world) run" where
  "explorir_set_operation_mode mode w =
     (let msg = c_string (''K x'' @ [CR, LF]) in
      if mode = EXPLORIR_MODE_STREAMING then transmit_and_process (msg[2 := CHR ''1'']) 5 w
      else if mode = EXPLORIR_MODE_POLLING then transmit_and_process (msg[2 := CHR ''2'']) 5 w
      else if mode = EXPLORIR_MODE_COMMAND then transmit_and_process (msg[2 := CHR ''0'']) 5 w
      else ([], Some (Inr (EXPLORIR_ERR_INVALID_MODE, w))))"

text \<open>\<open>filter\<close> is a \<open>uint16_t\<close>; \<open>buf\<close> has eight bytes.\<close>

definition explorir_set_digital_filter ::
  "16 word \<Rightarrow> world \<Rightarrow> (explorir_retcode_t \<times> world) run" where
  "explorir_set_digital_filter filt w =
     (if unat filt > MAX_DIGITAL_FILTER \<or> unat filt < MIN_DIGITAL_FILTER
      then ([], Some (Inr (EXPLORIR_ERR_INVALID_INPUT, w)))
      else (case sprintf_d 8 (unat filt) of
              Inl e \<Rightarrow> ([], Some (Inl e))
            | Inr buf \<Rightarrow>
                (let str_size = length buf; msg_size = 4 + str_size
                 in transmit_and_process (compile_message SET_DIGITAL_FILTER buf) msg_size w)))"

text \<open>
  \<open>initial\<close> and \<open>regular\<close> are \<open>uint8_t\<close>. The two \<open>sprintf\<close> calls are given the
  address of a single \<open>char\<close> each, an object of one byte; the message array holds the
  eleven characters of the literal and its NUL, and \<open>explorir_tx\<close> is called with
  size 10.
\<close>

definition auto_zero_intervals_msg :: "char \<Rightarrow> char \<Rightarrow> string" where
  "auto_zero_intervals_msg initial_char regular_char =
     (c_string (''@ x.0 x.0'' @ [CR, LF]))[2 := initial_char, 6 := regular_char]"

definition explorir_set_auto_zero_intervals ::
  "8 word \<Rightarrow> 8 word \<Rightarrow> world \<Rightarrow> (explorir_retcode_t \<times> world) run" where
  "explorir_set_auto_zero_intervals initial regular w =
     (if initial < 0 \<or> initial > 9 \<or> regular < 0 \<or> regular > 9
      then ([], Some (Inr (EXPLORIR_ERR_INVALID_INPUT, w)))
      else (case sprintf_d 1 (unat initial) of
              Inl e \<Rightarrow> ([], Some (Inl e))
            | Inr initial_char \<Rightarrow>
                (case sprintf_d 1 (unat regular) of
                   Inl e \<Rightarrow> ([], Some (Inl e))
                 | Inr regular_char \<Rightarrow>
                     transmit_and_process
                       (auto_zero_intervals_msg (hd initial_char) (hd regular_char)) 10 w)))"

subsection \<open>explorir_init\<close>

text \<open>One operation after another: the frames add up, and a run that has not
  returned has no next operation.\<close>

definition then_run :: "'a run \<Rightarrow> ('a \<Rightarrow> 'b run) \<Rightarrow> 'b run" where
  "then_run r f =
     (case r of
        (sent, Some (Inr x)) \<Rightarrow> (case f x of (sent', res) \<Rightarrow> (sent @ sent', res))
      | (sent, Some (Inl e)) \<Rightarrow> (sent, Some (Inl e))
      | (sent, None) \<Rightarrow> (sent, None))"

text \<open>\<open>explorir_handler->err_code = \<close> the value an operation returned.\<close>

definition record_err_code :: "explorir_retcode_t \<times> world \<Rightarrow> world" where
  "record_err_code rw = (snd rw)\<lparr>handler := (handler (snd rw))\<lparr>err_code := fst rw\<rparr>\<rparr>"

definition explorir_init :: "world \<Rightarrow> world run" where
  "explorir_init w0 =
     then_run (explorir_set_operation_mode EXPLORIR_MODE_COMMAND w0) (\<lambda>rw1.
     then_run (explorir_request_sensor_info (record_err_code rw1)) (\<lambda>rw2.
     then_run (explorir_request_scaling_factor (record_err_code rw2)) (\<lambda>rw3.
     then_run (explorir_set_digital_filter (of_nat DIGITAL_FILTER_DEFAULT)
                 (record_err_code rw3)) (\<lambda>rw4.
     then_run (explorir_request_pressure_and_concetration_compensation
                 (record_err_code rw4)) (\<lambda>rw5.
     then_run (explorir_set_output_data_all (record_err_code rw5)) (\<lambda>rw6.
     then_run (explorir_set_operation_mode EXPLORIR_MODE_DEFAULT (record_err_code rw6)) (\<lambda>rw7.
       let w = record_err_code rw7 in
       ([], Some (Inr (w\<lparr>handler := (handler w)
            \<lparr>current_mode := EXPLORIR_MODE_DEFAULT,
             current_filtered_co2 := 0,
             current_unfiltered_co2 := 0,
             digital_filter := of_nat DIGITAL_FILTER_DEFAULT\<rparr>\<rparr>))))))))))"

section \<open>Notions used to state the properties\<close>

subsection \<open>The scanner's loop body, tag by tag\<close>

text \<open>
  The thirteen tag characters of the switch, what each case stores, and the loop body
  written once with the continuation \<open>f\<close> in place of the next iteration. The
  lemma \<open>scan_unfold\<close> below shows that \<open>scan\<close> is this body applied to itself.
\<close>

definition recognized_tag :: "char \<Rightarrow> bool" where
  "recognized_tag c \<longleftrightarrow>
     c = CHR ''.'' \<or> c = CHR ''Z'' \<or> c = CHR ''z'' \<or> c = CHR ''K'' \<or> c = CHR ''A''
     \<or> c = CHR ''a'' \<or> c = CHR ''F'' \<or> c = CHR ''G'' \<or> c = CHR ''X'' \<or> c = CHR ''U''
     \<or> c = CHR ''u'' \<or> c = CHR ''S'' \<or> c = CHR ''s''"

definition store_field :: "char \<Rightarrow> int \<Rightarrow> explorir_handler_t \<Rightarrow> explorir_handler_t" where
  "store_field c v h =
     (if c = CHR ''.'' then h\<lparr>scaling_factor := word_of_int v\<rparr>
      else if c = CHR ''Z'' then
        h\<lparr>current_filtered_co2 := word_of_int (v * uint (scaling_factor h))\<rparr>
      else if c = CHR ''z'' then
        h\<lparr>current_unfiltered_co2 := word_of_int (v * uint (scaling_factor h))\<rparr>
      else if c = CHR ''K'' then h\<lparr>current_mode := v\<rparr>
      else if c = CHR ''A'' \<or> c = CHR ''a'' then h\<lparr>digital_filter := word_of_int v\<rparr>
      else if c = CHR ''F'' \<or> c = CHR ''G'' \<or> c = CHR ''X'' \<or> c = CHR ''U''
              \<or> c = CHR ''u'' then h\<lparr>zero_point := word_of_int v\<rparr>
      else h\<lparr>pressure_and_concentration_compensation := word_of_int v\<rparr>)"

definition scan_step ::
  "(nat \<Rightarrow> explorir_handler_t \<Rightarrow> (fault + explorir_handler_t) option) \<Rightarrow>
   nat \<Rightarrow> explorir_handler_t \<Rightarrow> (fault + explorir_handler_t) option" where
  "scan_step f i h =
     (if length (explorir_data h) \<le> i then Some (Inl ReadPastBuffer)
      else if explorir_data h ! i = LF then Some (Inr h)
      else if recognized_tag (explorir_data h ! i) then
        (case read_field (explorir_data h) i of
           Inl e \<Rightarrow> Some (Inl e)
         | Inr v \<Rightarrow>
             if explorir_data h ! i = CHR ''Z'' then f 9 (store_field (CHR ''Z'') v h)
             else Some (Inr (store_field (explorir_data h ! i) v h)))
      else f (i + 1) h)"

subsection \<open>Iterations of the loop, and the offsets at which it acts\<close>

text \<open>
  \<open>scan_fuel n\<close> is the loop cut off after \<open>n\<close> evaluations of its condition
  \<open>explorir_data[i] != TERMINATE\<close>, each followed by the \<open>switch\<close> when it holds:
  it has the result of \<open>scan\<close> when the loop ends within \<open>n\<close> of them and is
  \<open>None\<close> otherwise (lemma \<open>scan_fuel_sound\<close> below).

  \<open>next_stop d i\<close> is the first offset from \<open>i\<close> on that holds a line feed or a tag,
  or the first offset outside the buffer when there is none: on the bytes before it the
  loop only advances the cursor. \<open>field_read d j\<close>: the four statements that read the
  field of a tag at \<open>j\<close> stay within the buffer and within the array of five.
  \<open>ends_scan d j\<close>: \<open>j\<close> is inside the buffer and holds a line feed, or a byte other
  than \<open>Z\<close> whose field is so read. \<open>scanned_in_bounds d\<close>: the first such offset
  from 0 ends the scan, or it holds a \<open>Z\<close> below offset 9 whose field is read and
  the first such offset from 9 ends the scan.
\<close>

primrec scan_fuel ::
  "nat \<Rightarrow> nat \<Rightarrow> explorir_handler_t \<Rightarrow> (fault + explorir_handler_t) option" where
  "scan_fuel 0 i h = None"
| "scan_fuel (Suc n) i h = scan_step (scan_fuel n) i h"

function next_stop :: "string \<Rightarrow> nat \<Rightarrow> nat" where
  "next_stop d i =
     (if length d \<le> i \<or> d ! i = LF \<or> recognized_tag (d ! i) then i
      else next_stop d (i + 1))"
  by pat_completeness auto
termination
  by (relation "measure (\<lambda>(d, i). length d - i)") auto

declare next_stop.simps [simp del]

definition field_read :: "string \<Rightarrow> nat \<Rightarrow> bool" where
  "field_read d j \<longleftrightarrow> (case read_field d j of Inl e \<Rightarrow> False | Inr v \<Rightarrow> True)"

definition ends_scan :: "string \<Rightarrow> nat \<Rightarrow> bool" where
  "ends_scan d j \<longleftrightarrow>
     j < length d \<and> (d ! j = LF \<or> (d ! j \<noteq> CHR ''Z'' \<and> field_read d j))"

definition scanned_in_bounds :: "string \<Rightarrow> bool" where
  "scanned_in_bounds d \<longleftrightarrow>
     ends_scan d (next_stop d 0)
     \<or> (next_stop d 0 < 9 \<and> next_stop d 0 < length d \<and> d ! next_stop d 0 = CHR ''Z''
        \<and> field_read d (next_stop d 0) \<and> ends_scan d (next_stop d 9))"

subsection \<open>Example states\<close>

text \<open>The buffer after \<open>memset\<close>, and after the host has copied a response to its
  start; a handler holding scaling factor 1 and nothing else.\<close>

definition cleared :: string where
  "cleared = replicate UART_RX_BUF_SIZE NUL"

definition response_buffer :: "string \<Rightarrow> string" where
  "response_buffer s = s @ drop (length s) cleared"

definition example_handler :: explorir_handler_t where
  "example_handler =
     \<lparr>explorir_data = cleared, err_code = EXPLORIR_SUCCESS, scaling_factor = 1,
      current_filtered_co2 = 0, current_unfiltered_co2 = 0, digital_filter = 0,
      zero_point = 0, pressure_and_concentration_compensation = 0, current_mode = 0\<rparr>"

definition example_world :: world where
  "example_world = \<lparr>handler = example_handler, incoming = []\<rparr>"

definition digits_value :: "string \<Rightarrow> nat" where
  "digits_value s = foldl (\<lambda>a c. 10 * a + (of_char c - 48)) 0 s"

subsection \<open>The reply field of the wire format\<close>

text \<open>The five-character decimal field of a reply, left-padded with zeros: what the
  specification writes \<open>zero_pad5(v)\<close>, for \<open>v\<close> up to 99999.\<close>

definition zero_pad5 :: "nat \<Rightarrow> string" where
  "zero_pad5 v = map digit_char
     [v div 10000 mod 10, v div 1000 mod 10, v div 100 mod 10, v div 10 mod 10, v mod 10]"

subsection \<open>Responses on which the scanner returns, and an initialisation\<close>

text \<open>
  \<open>scan_returns d\<close>: on the buffer \<open>d\<close> the loop ends at the line feed or at a tag
  that stops it, whatever the other fields hold. \<open>init_frames\<close> are the seven frames
  of \<open>explorir_init\<close> in order; \<open>init_responses\<close> is one response for each of its
  eight scans (the second operation scans twice), and \<open>init_world\<close> a world whose host
  delivers them, each as a whole buffer; its handler has an error status stored, which
  every step of the initialisation then returns.
\<close>

definition scan_returns :: "string \<Rightarrow> bool" where
  "scan_returns d \<longleftrightarrow> (\<forall>h. explorir_data h = d \<longrightarrow> (\<exists>h'. scan 0 h = Some (Inr h')))"

definition init_frames :: "string list" where
  "init_frames =
     [''K 0'' @ [CR, LF], ''Y'' @ [CR, LF], ''.'' @ [CR, LF], ''A 16'' @ [CR, LF],
      ''s'' @ [CR, LF], ''M 00006'' @ [CR, LF], ''K 0'' @ [CR, LF]]"

definition init_responses :: "string list" where
  "init_responses =
     ['' K 00000'' @ [CR, LF],
      ''Y,Jan 30 2013,10:45:03,AL17'' @ [CR, LF],
      '' B 00233 00000'' @ [CR, LF],
      '' . 00010'' @ [CR, LF],
      '' A 00016'' @ [CR, LF],
      '' s 08192'' @ [CR, LF],
      '' M 00006'' @ [CR, LF],
      '' K 00000'' @ [CR, LF]]"

definition init_world :: world where
  "init_world =
     \<lparr>handler = example_handler\<lparr>err_code := EXPLORIR_ERR_TIMEOUT,
                  current_filtered_co2 := 100, current_unfiltered_co2 := 50\<rparr>,
      incoming = map (\<lambda>s. Some (response_buffer s)) init_responses\<rparr>"

section \<open>The frame encoder\<close>

lemma digit_char_props:
  "k < 10 \<Longrightarrow> isdigit (digit_char k)"
  "k < 10 \<Longrightarrow> (of_char (digit_char k) :: nat) = 48 + k"
  "k < 10 \<Longrightarrow> (digit_char k = CHR ''0'') = (k = 0)"
  by (auto simp: digit_char_def isdigit_def char_of_eq_iff take_bit_eq_mod)

lemma decimal_nonempty: "decimal n \<noteq> []"
  by (subst decimal.simps) simp

lemma decimal_digits: "list_all isdigit (decimal n)"
proof (induction n rule: decimal.induct)
  case (1 n)
  show ?case
    by (subst decimal.simps) (use 1 in \<open>auto simp: digit_char_props\<close>)
qed

lemma decimal_value: "digits_value (decimal n) = n"
proof (induction n rule: decimal.induct)
  case (1 n)
  show ?case
  proof (cases "n < 10")
    case True
    then show ?thesis
      by (subst decimal.simps) (simp add: digits_value_def digit_char_props)
  next
    case False
    with 1 have "digits_value (decimal (n div 10)) = n div 10" by simp
    with False show ?thesis
      by (subst decimal.simps) (simp add: digits_value_def digit_char_props)
  qed
qed

lemma decimal_16: "decimal 16 = ''16''"
  by code_simp

lemma decimal_no_leading_zero: "0 < n \<Longrightarrow> hd (decimal n) \<noteq> CHR ''0''"
proof (induction n rule: decimal.induct)
  case (1 n)
  show ?case
  proof (cases "n < 10")
    case True
    with "1.prems" show ?thesis by (subst decimal.simps) (simp add: digit_char_props)
  next
    case False
    with 1 have "hd (decimal (n div 10)) \<noteq> CHR ''0''" by simp
    with False show ?thesis
      by (subst decimal.simps) (simp add: decimal_nonempty)
  qed
qed

lemma copy_loop_length:
  "length (fold (\<lambda>i m. m[Suc (Suc i) := buf ! i]) [0..<n] m) = length m"
  by (induction n) simp_all

lemma copy_loop_nth:
  "k < length m \<Longrightarrow>
   fold (\<lambda>i m. m[Suc (Suc i) := buf ! i]) [0..<n] m ! k =
     (if 2 \<le> k \<and> k < n + 2 then buf ! (k - 2) else m ! k)"
proof (induction n)
  case 0
  then show ?case by auto
next
  case (Suc n)
  show ?case
  proof (cases "k = Suc (Suc n)")
    case True
    with Suc.prems show ?thesis by (simp add: copy_loop_length)
  next
    case False
    with Suc show ?thesis by auto
  qed
qed

lemma compile_message_eq: "compile_message tag buf = tag # SPACE # buf @ [CR, LF]"
proof (rule nth_equalityI)
  show "length (compile_message tag buf) = length (tag # SPACE # buf @ [CR, LF])"
    by (simp add: compile_message_def Let_def copy_loop_length)
next
  fix k
  assume "k < length (compile_message tag buf)"
  then have k: "k < 4 + length buf"
    by (simp add: compile_message_def Let_def copy_loop_length)
  then show "compile_message tag buf ! k = (tag # SPACE # buf @ [CR, LF]) ! k"
    by (auto simp: compile_message_def Let_def copy_loop_length copy_loop_nth
        nth_list_update nth_Cons nth_append split: nat.splits)
qed

lemma decimal_length_le: "n < 100000 \<Longrightarrow> length (decimal n) \<le> 5"
  by (simp add: decimal.simps [of n] decimal.simps [of "n div 10"]
        decimal.simps [of "n div 10 div 10"] decimal.simps [of "n div 10 div 10 div 10"]
        decimal.simps [of "n div 10 div 10 div 10 div 10"])

lemma fst_transmit_and_process:
  "sz \<le> length msg \<Longrightarrow> fst (transmit_and_process msg sz w) = [take sz msg]"
  by (simp add: transmit_and_process_def explorir_tx_def)

text \<open>
  Claim C5. For a filter argument up to 65365, \<open>explorir_set_digital_filter\<close> hands
  \<open>explorir_tx\<close> exactly one frame: the tag \<open>A\<close>, one space, the decimal digits of
  the argument, CR and LF, which makes four bytes more than the digits. The digits
  are those of \<open>sprintf\<close>: they are decimal digits, they denote the argument, and the
  first is not \<open>0\<close> unless the argument is zero. For an argument above 65365 the
  operation returns \<open>EXPLORIR_ERR_INVALID_INPUT\<close> with no frame sent and the world
  untouched. (The argument is a \<open>uint16_t\<close>, so it is never negative.) The frame is
  sent whatever the scan of the response does afterwards.
\<close>

theorem set_digital_filter_frame:
  "(unat filt \<le> 65365 \<longrightarrow>
      fst (explorir_set_digital_filter filt w)
        = [CHR ''A'' # CHR '' '' # decimal (unat filt) @ [CR, LF]]
      \<and> length (CHR ''A'' # CHR '' '' # decimal (unat filt) @ [CR, LF])
          = 4 + length (decimal (unat filt))
      \<and> digits_value (decimal (unat filt)) = unat filt
      \<and> list_all isdigit (decimal (unat filt))
      \<and> (0 < unat filt \<longrightarrow> hd (decimal (unat filt)) \<noteq> CHR ''0''))
   \<and> (65365 < unat filt \<longrightarrow>
      explorir_set_digital_filter filt w = ([], Some (Inr (EXPLORIR_ERR_INVALID_INPUT, w))))"
proof (intro conjI impI)
  assume le: "unat filt \<le> 65365"
  then have "length (decimal (unat filt)) \<le> 5"
    by (intro decimal_length_le) simp
  with le show "fst (explorir_set_digital_filter filt w)
        = [CHR ''A'' # CHR '' '' # decimal (unat filt) @ [CR, LF]]"
    by (simp add: explorir_set_digital_filter_def MAX_DIGITAL_FILTER_def MIN_DIGITAL_FILTER_def
          sprintf_d_def Let_def fst_transmit_and_process compile_message_eq)
next
  assume "0 < unat filt"
  then show "hd (decimal (unat filt)) \<noteq> CHR ''0''" by (rule decimal_no_leading_zero)
next
  assume "65365 < unat filt"
  then show "explorir_set_digital_filter filt w = ([], Some (Inr (EXPLORIR_ERR_INVALID_INPUT, w)))"
    by (simp add: explorir_set_digital_filter_def MAX_DIGITAL_FILTER_def)
qed (simp_all add: decimal_value decimal_digits)

theorem set_digital_filter_frame_witness:
  "fst (explorir_set_digital_filter 16 example_world) = [''A 16'' @ [CR, LF]]
   \<and> explorir_set_digital_filter 65366 example_world
       = ([], Some (Inr (EXPLORIR_ERR_INVALID_INPUT, example_world)))"
proof -
  have d: "decimal 16 = ''16''"
    by code_simp
  show ?thesis
    using set_digital_filter_frame [of 16 example_world]
      set_digital_filter_frame [of 65366 example_world]
    by (simp add: d)
qed

text \<open>
  Claim C8. \<open>explorir_set_operation_mode\<close> sends \<open>K 0\<close>, \<open>K 1\<close> or \<open>K 2\<close>,
  each followed by CR and LF, for the command, streaming and polling mode, and
  nothing else; for any other value of the mode it returns
  \<open>EXPLORIR_ERR_INVALID_MODE\<close>, sends no frame and leaves the world as it was.
\<close>

theorem set_operation_mode_frame:
  "(mode = EXPLORIR_MODE_COMMAND \<longrightarrow>
      fst (explorir_set_operation_mode mode w) = [''K 0'' @ [CR, LF]])
   \<and> (mode = EXPLORIR_MODE_STREAMING \<longrightarrow>
      fst (explorir_set_operation_mode mode w) = [''K 1'' @ [CR, LF]])
   \<and> (mode = EXPLORIR_MODE_POLLING \<longrightarrow>
      fst (explorir_set_operation_mode mode w) = [''K 2'' @ [CR, LF]])
   \<and> (mode \<noteq> EXPLORIR_MODE_COMMAND \<and> mode \<noteq> EXPLORIR_MODE_STREAMING
        \<and> mode \<noteq> EXPLORIR_MODE_POLLING \<longrightarrow>
      explorir_set_operation_mode mode w = ([], Some (Inr (EXPLORIR_ERR_INVALID_MODE, w))))"
  by (simp add: explorir_set_operation_mode_def Let_def c_string_def fst_transmit_and_process
        EXPLORIR_MODE_COMMAND_def EXPLORIR_MODE_STREAMING_def EXPLORIR_MODE_POLLING_def)

theorem set_operation_mode_frame_witness:
  "fst (explorir_set_operation_mode EXPLORIR_MODE_STREAMING example_world) = [''K 1'' @ [CR, LF]]
   \<and> explorir_set_operation_mode 99 example_world
        = ([], Some (Inr (EXPLORIR_ERR_INVALID_MODE, example_world)))"
  using set_operation_mode_frame [of EXPLORIR_MODE_STREAMING example_world]
    set_operation_mode_frame [of 99 example_world]
  by (simp add: EXPLORIR_MODE_COMMAND_def EXPLORIR_MODE_STREAMING_def EXPLORIR_MODE_POLLING_def)

text \<open>
  Claim C10. When an operation rejects its argument (a digital filter above
  \<open>MAX_DIGITAL_FILTER\<close>, a mode that is none of the three, an auto-zero interval
  above 9), the error is the returned value only: no frame is sent and the world,
  with the handler and its \<open>err_code\<close>, is the one the operation was given. The
  witness has \<open>err_code = EXPLORIR_SUCCESS\<close> stored while the operations return an
  error.
\<close>

theorem rejected_argument_leaves_handler:
  "(MAX_DIGITAL_FILTER < unat filt \<longrightarrow>
      explorir_set_digital_filter filt w = ([], Some (Inr (EXPLORIR_ERR_INVALID_INPUT, w))))
   \<and> (mode \<noteq> EXPLORIR_MODE_COMMAND \<and> mode \<noteq> EXPLORIR_MODE_STREAMING
        \<and> mode \<noteq> EXPLORIR_MODE_POLLING \<longrightarrow>
      explorir_set_operation_mode mode w = ([], Some (Inr (EXPLORIR_ERR_INVALID_MODE, w))))
   \<and> (9 < initial \<or> 9 < regular \<longrightarrow>
      explorir_set_auto_zero_intervals initial regular w
        = ([], Some (Inr (EXPLORIR_ERR_INVALID_INPUT, w))))"
  by (auto simp: explorir_set_digital_filter_def explorir_set_operation_mode_def
        explorir_set_auto_zero_intervals_def Let_def)

theorem rejected_argument_leaves_handler_witness:
  "explorir_set_digital_filter 65366 example_world
      = ([], Some (Inr (EXPLORIR_ERR_INVALID_INPUT, example_world)))
   \<and> explorir_set_operation_mode 99 example_world
      = ([], Some (Inr (EXPLORIR_ERR_INVALID_MODE, example_world)))
   \<and> explorir_set_auto_zero_intervals 10 0 example_world
      = ([], Some (Inr (EXPLORIR_ERR_INVALID_INPUT, example_world)))
   \<and> err_code (handler example_world) = EXPLORIR_SUCCESS"
  using rejected_argument_leaves_handler [of 65366 example_world 99 10 0]
  by (simp add: MAX_DIGITAL_FILTER_def EXPLORIR_MODE_COMMAND_def EXPLORIR_MODE_STREAMING_def
        EXPLORIR_MODE_POLLING_def example_world_def example_handler_def)

lemma sprintf_d_one: "sprintf_d (Suc 0) n = Inl WritePastArray"
  by (simp add: sprintf_d_def decimal_nonempty)

text \<open>
  Claim C7, for intervals from 0 to 9. Each \<open>sprintf\<close> writes a digit and a NUL to an
  object of one byte, so the run stops there with no frame sent. Were the two digits
  taken as stored, the array would hold \<open>@ d.0 d.0\<close>, CR, LF and NUL, and
  \<open>explorir_tx\<close>, called with size 10, would be given the first ten bytes: the frame
  ends with CR and lacks the LF.
\<close>

theorem set_auto_zero_intervals_frame:
  "initial \<le> 9 \<and> regular \<le> 9 \<longrightarrow>
     explorir_set_auto_zero_intervals initial regular w = ([], Some (Inl WritePastArray))
     \<and> explorir_tx (auto_zero_intervals_msg initial_char regular_char) 10
         = Inr ([CHR ''@'', CHR '' '', initial_char, CHR ''.'', CHR ''0'', CHR '' '',
                 regular_char, CHR ''.'', CHR ''0'', CR])"
proof (intro impI conjI)
  assume "initial \<le> 9 \<and> regular \<le> 9"
  then show "explorir_set_auto_zero_intervals initial regular w = ([], Some (Inl WritePastArray))"
    by (simp add: explorir_set_auto_zero_intervals_def sprintf_d_one not_less [symmetric])
  show "explorir_tx (auto_zero_intervals_msg initial_char regular_char) 10
         = Inr ([CHR ''@'', CHR '' '', initial_char, CHR ''.'', CHR ''0'', CHR '' '',
                 regular_char, CHR ''.'', CHR ''0'', CR])"
    by (simp add: explorir_tx_def auto_zero_intervals_msg_def c_string_def)
qed

theorem set_auto_zero_intervals_frame_witness:
  "explorir_set_auto_zero_intervals 1 2 example_world = ([], Some (Inl WritePastArray))
   \<and> explorir_tx (auto_zero_intervals_msg (CHR ''1'') (CHR ''2'')) 10
       = Inr (''@ 1.0 2.0'' @ [CR])"
  using set_auto_zero_intervals_frame [of 1 2 example_world "CHR ''1''" "CHR ''2''"]
  by simp

section \<open>The response scanner\<close>

subsection \<open>The value of a field\<close>

text \<open>
  What \<open>atoi\<close> returns for an array of \<open>n\<close> bytes has fewer than \<open>n\<close> digits, so a
  field value lies between -9999 and 9999 and its product with a 16-bit scaling factor
  is within \<open>int\<close>: the multiplication in the two CO2 cases does not overflow.
\<close>

lemma isdigit_value: "isdigit c \<Longrightarrow> 0 \<le> (of_char c :: int) - 48 \<and> (of_char c :: int) - 48 \<le> 9"
proof -
  assume "isdigit c"
  then have "48 \<le> (of_char c :: nat) \<and> (of_char c :: nat) \<le> 57" by (simp add: isdigit_def)
  then have "48 \<le> int (of_char c) \<and> int (of_char c) \<le> 57" by linarith
  then show ?thesis by (simp add: of_nat_of_char)
qed

lemma atoi_digits_bound:
  "atoi_digits acc s = Inr v \<Longrightarrow> 0 \<le> acc \<Longrightarrow>
     acc \<le> v \<and> v + 1 \<le> (acc + 1) * 10 ^ (length s - 1)"
proof (induction s arbitrary: acc)
  case Nil
  then show ?case by simp
next
  case (Cons c cs)
  show ?case
  proof (cases "isdigit c")
    case False
    with Cons.prems have "v = acc" by simp
    moreover have "acc + 1 \<le> (acc + 1) * 10 ^ length cs"
      using Cons.prems(2) by (simp add: mult_le_cancel_left1)
    ultimately show ?thesis by simp
  next
    case True
    let ?k = "(of_char c :: int) - 48"
    from isdigit_value [OF True] have k: "0 \<le> ?k" "?k \<le> 9" by simp_all
    from True Cons.prems have r: "atoi_digits (acc * 10 + ?k) cs = Inr v" by simp
    then have ne: "cs \<noteq> []" by auto
    from k Cons.prems(2) have nn: "0 \<le> acc * 10 + ?k" by simp
    from Cons.IH [OF r nn]
    have 1: "acc * 10 + ?k \<le> v" and 2: "v + 1 \<le> (acc * 10 + ?k + 1) * 10 ^ (length cs - 1)"
      by simp_all
    from ne obtain n where n: "length cs = Suc n" by (cases cs) auto
    then have m: "length cs - 1 = n" by simp
    from 2 have "v + 1 \<le> (acc * 10 + ?k + 1) * 10 ^ n" unfolding m .
    also have "\<dots> \<le> ((acc + 1) * 10) * 10 ^ n"
      using k by (intro mult_right_mono) simp_all
    also have "\<dots> = (acc + 1) * 10 ^ length cs" using n by simp
    finally have "v + 1 \<le> (acc + 1) * 10 ^ length cs" .
    moreover from 1 k Cons.prems(2) have "acc \<le> v" by linarith
    ultimately show ?thesis by simp
  qed
qed

lemma atoi_sign_bound:
  "atoi_sign s = Inr v \<Longrightarrow> \<bar>v\<bar> < 10 ^ (length s - 1)"
proof (cases s)
  case Nil
  assume "atoi_sign s = Inr v"
  with Nil show ?thesis by simp
next
  case (Cons c cs)
  assume a: "atoi_sign s = Inr v"
  have pow: "(10::int) ^ (length cs - 1) \<le> 10 ^ length cs"
    by (rule power_increasing) simp_all
  consider "c = CHR ''-''" | "c \<noteq> CHR ''-''" "c = CHR ''+''" | "c \<noteq> CHR ''-''" "c \<noteq> CHR ''+''"
    by blast
  then show ?thesis
  proof cases
    case 1
    with a Cons obtain u where u: "atoi_digits 0 cs = Inr u" and v: "v = - u"
      by (cases "atoi_digits 0 cs") auto
    from atoi_digits_bound [OF u] have "0 \<le> u \<and> u + 1 \<le> 10 ^ (length cs - 1)" by simp
    with pow have "\<bar>- u\<bar> < 10 ^ length cs" by linarith
    with v Cons show ?thesis by simp
  next
    case 2
    with a Cons have u: "atoi_digits 0 cs = Inr v" by simp
    from atoi_digits_bound [OF u] have "0 \<le> v \<and> v + 1 \<le> 10 ^ (length cs - 1)" by simp
    with pow have "\<bar>v\<bar> < 10 ^ length cs" by linarith
    with Cons show ?thesis by simp
  next
    case 3
    with a Cons have u: "atoi_digits 0 (c # cs) = Inr v" by simp
    from atoi_digits_bound [OF u] have "0 \<le> v \<and> v + 1 \<le> 10 ^ length cs" by simp
    then have "\<bar>v\<bar> < 10 ^ length cs" by linarith
    with Cons show ?thesis by simp
  qed
qed

lemma atoi_bound: "atoi s = Inr v \<Longrightarrow> \<bar>v\<bar> < 10 ^ (length s - 1)"
proof (induction s)
  case Nil
  then show ?case by simp
next
  case (Cons c cs)
  show ?case
  proof (cases "isspace c")
    case True
    with Cons have "\<bar>v\<bar> < 10 ^ (length cs - 1)" by simp
    moreover have "(10::int) ^ (length cs - 1) \<le> 10 ^ length cs"
      by (rule power_increasing) simp_all
    ultimately have "\<bar>v\<bar> < 10 ^ length cs" by linarith
    then show ?thesis by simp
  next
    case False
    with Cons.prems have "atoi_sign (c # cs) = Inr v" by simp
    from atoi_sign_bound [OF this] show ?thesis .
  qed
qed

lemma product_within_int:
  fixes s :: "16 word"
  assumes "atoi field = Inr v" and "length field \<le> 5"
  shows "- (2 ^ 31) < v * uint s \<and> v * uint s < 2 ^ 31"
proof -
  from atoi_bound [OF assms(1)] have "\<bar>v\<bar> < 10 ^ (length field - 1)" .
  also have "\<dots> \<le> (10::int) ^ 4" using assms(2) by (intro power_increasing) simp_all
  finally have v: "\<bar>v\<bar> \<le> 9999" by simp
  have s: "0 \<le> uint s" "uint s \<le> 65535"
    using uint_lt2p [of s] by simp_all
  have "\<bar>v * uint s\<bar> = \<bar>v\<bar> * uint s" using s by (simp add: abs_mult)
  also have "\<dots> \<le> 9999 * 65535" using v s by (intro mult_mono) simp_all
  finally have "\<bar>v * uint s\<bar> \<le> 655284465" by simp
  then show ?thesis by (simp add: abs_le_iff)
qed

lemma field_product_within_int:
  fixes s :: "16 word"
  assumes "read_field d i = Inr v"
  shows "- (2 ^ 31) < v * uint s \<and> v * uint s < 2 ^ 31"
proof -
  from assms obtain j where "atoi (take 5 (drop j d)) = Inr v"
    by (auto simp: read_field_def memcpy5_def split: sum.splits if_splits)
  then show ?thesis by (rule product_within_int) simp
qed

subsection \<open>The loop, one step at a time\<close>

lemma scan_unfold: "scan i h = scan_step scan i h"
proof (cases "length (explorir_data h) \<le> i")
  case True
  then show ?thesis by (subst scan.simps) (simp add: scan_step_def)
next
  case inb: False
  show ?thesis
  proof (cases "explorir_data h ! i = LF")
    case True
    with inb show ?thesis by (subst scan.simps) (simp add: scan_step_def)
  next
    case nlf: False
    show ?thesis
    proof (cases "recognized_tag (explorir_data h ! i)")
      case True
      then show ?thesis
        unfolding recognized_tag_def
        by (elim disjE)
           (subst scan.simps,
            simp add: scan_step_def recognized_tag_def store_field_def inb split: sum.splits)+
    next
      case False
      with inb nlf show ?thesis
        by (subst scan.simps) (simp add: scan_step_def recognized_tag_def)
    qed
  qed
qed

lemma scan_induct [consumes 1, case_names step]:
  assumes "scan i h = Some y"
    and "\<And>f i h y. (\<And>i h y. f i h = Some y \<Longrightarrow> P i h y) \<Longrightarrow>
           scan_step f i h = Some y \<Longrightarrow> P i h y"
  shows "P i h y"
proof (rule scan.raw_induct [where P = P, OF _ assms(1)], goal_cases)
  case (1 f i h y)
  have "scan_step f i h = Some y"
  proof (cases "length (explorir_data h) \<le> i")
    case True
    with 1(2) show ?thesis by (simp add: scan_step_def)
  next
    case inb: False
    show ?thesis
    proof (cases "explorir_data h ! i = LF")
      case True
      with inb 1(2) show ?thesis by (simp add: scan_step_def)
    next
      case nlf: False
      show ?thesis
      proof (cases "recognized_tag (explorir_data h ! i)")
        case True
        then show ?thesis
          using 1(2) unfolding recognized_tag_def
          by (elim disjE)
             (simp add: scan_step_def recognized_tag_def store_field_def inb split: sum.splits)+
      next
        case False
        with inb nlf 1(2) show ?thesis
          by (simp add: scan_step_def recognized_tag_def)
      qed
    qed
  qed
  with 1(1) show "P i h y" by (rule assms(2))
qed

lemma store_field_keeps [simp]:
  "explorir_data (store_field c v h) = explorir_data h"
  "err_code (store_field c v h) = err_code h"
  by (simp_all add: store_field_def)

lemma scan_keeps_aux:
  assumes "scan i h = Some y"
  shows "\<forall>h'. y = Inr h' \<longrightarrow> explorir_data h' = explorir_data h \<and> err_code h' = err_code h"
  using assms
proof (induction rule: scan_induct)
  case (step f i h y)
  have IH: "\<And>i h h'. f i h = Some (Inr h') \<Longrightarrow>
              explorir_data h' = explorir_data h \<and> err_code h' = err_code h"
    using step(1) by blast
  from step(2) show ?case
    by (auto simp: scan_step_def split: if_splits sum.splits dest!: IH)
qed

lemma scan_keeps:
  "scan i h = Some (Inr h') \<Longrightarrow>
     explorir_data h' = explorir_data h \<and> err_code h' = err_code h"
  using scan_keeps_aux by blast

lemma scan_runs_off:
  assumes "\<forall>j. i \<le> j \<and> j < length (explorir_data h) \<longrightarrow>
             explorir_data h ! j \<noteq> LF \<and> \<not> recognized_tag (explorir_data h ! j)"
  shows "scan i h = Some (Inl ReadPastBuffer)"
  using assms
proof (induction "length (explorir_data h) - i" arbitrary: i)
  case 0
  then show ?case by (subst scan_unfold) (simp add: scan_step_def)
next
  case (Suc n)
  then have "scan (i + 1) h = Some (Inl ReadPastBuffer)" by simp
  with Suc.prems Suc.hyps(2) show ?case
    by (subst scan_unfold) (simp add: scan_step_def)
qed

lemma scan_loops_aux:
  assumes "scan i h = Some y"
  shows "\<not> (i = 9 \<and> 9 < length (explorir_data h) \<and> explorir_data h ! 9 = CHR ''Z''
            \<and> \<not> isl (read_field (explorir_data h) 9))"
  using assms
proof (induction rule: scan_induct)
  case (step f i h y)
  show ?case
  proof
    assume a: "i = 9 \<and> 9 < length (explorir_data h) \<and> explorir_data h ! 9 = CHR ''Z''
            \<and> \<not> isl (read_field (explorir_data h) 9)"
    then obtain v where v: "read_field (explorir_data h) 9 = Inr v"
      by (cases "read_field (explorir_data h) 9") auto
    with a step(2) have "f 9 (store_field (CHR ''Z'') v h) = Some y"
      by (simp add: scan_step_def recognized_tag_def)
    from step(1) [OF this] a show False by simp
  qed
qed

lemma scan_loops:
  "9 < length (explorir_data h) \<Longrightarrow> explorir_data h ! 9 = CHR ''Z'' \<Longrightarrow>
   read_field (explorir_data h) 9 = Inr v \<Longrightarrow> scan 9 h = None"
  using scan_loops_aux [of 9 h] by (cases "scan 9 h") auto

text \<open>A buffer whose first tag is not \<open>Z\<close>, with no line feed before it and a
  field that can be read: the call returns with that one value stored.\<close>

lemma scan_first_tag:
  assumes "t < length (explorir_data h)"
    and "\<forall>j<t. explorir_data h ! j \<noteq> LF \<and> \<not> recognized_tag (explorir_data h ! j)"
    and "recognized_tag (explorir_data h ! t)" and "explorir_data h ! t \<noteq> CHR ''Z''"
    and "read_field (explorir_data h) t = Inr v"
  shows "explorir_process_response h
           = Some (Inr ((store_field (explorir_data h ! t) v h)\<lparr>explorir_data := cleared\<rparr>))"
proof -
  have "i \<le> t \<Longrightarrow> scan i h = Some (Inr (store_field (explorir_data h ! t) v h))" for i
  proof (induction "t - i" arbitrary: i)
    case 0
    then have "i = t" by simp
    with assms show ?case
      by (subst scan_unfold) (auto simp: scan_step_def recognized_tag_def)
  next
    case (Suc n)
    then have "i < t" by simp
    with assms(2) have q: "explorir_data h ! i \<noteq> LF" "\<not> recognized_tag (explorir_data h ! i)"
      by simp_all
    from Suc have "scan (i + 1) h = Some (Inr (store_field (explorir_data h ! t) v h))" by simp
    with q \<open>i < t\<close> assms(1) show ?case
      by (subst scan_unfold) (simp add: scan_step_def)
  qed
  from this [of 0] show ?thesis
    by (simp add: explorir_process_response_def cleared_def)
qed

subsection \<open>Evaluation on given buffers\<close>

lemma replicate_numeral: "replicate (numeral k) x = x # replicate (pred_numeral k) x"
  by (simp add: numeral_eq_Suc)

lemmas eval_defs = replicate_numeral explorir_process_response_def example_handler_def
  response_buffer_def cleared_def UART_RX_BUF_SIZE_def scan.simps read_field_def
  skip_zeros.simps memcpy5_def isspace_def isdigit_def

subsection \<open>Which tags continue the scan\<close>

text \<open>
  The buffer \<open>Z 00100z 00050\<close> with scaling factor 1: the \<open>Z\<close> case stores 100
  and moves the cursor to 9, beyond the \<open>z\<close> at offset 7; the scan ends at the line
  feed and the unfiltered value is still 0, not 50.
\<close>

theorem example_without_spaces_counterexample:
  "explorir_process_response
       (example_handler\<lparr>explorir_data := response_buffer (''Z 00100z 00050'' @ [CR, LF])\<rparr>)
     = Some (Inr (example_handler\<lparr>current_filtered_co2 := 100\<rparr>))
   \<and> current_unfiltered_co2 (example_handler\<lparr>current_filtered_co2 := 100\<rparr>) \<noteq> 50"
  by (simp add: eval_defs)

text \<open>
  Claim C1, as the code has it. At a tag whose field is read as \<open>v\<close>: the filtered
  tag \<open>Z\<close> stores \<open>v\<close> times the scaling factor and goes on with the cursor at
  offset 9; every other tag, the unfiltered tag \<open>z\<close> among them, stores its value
  and ends the scan at once. With scaling factor 1, a line with \<open>Z\<close> at offset 1 and
  \<open>z\<close> at offset 9 gives filtered 100 and unfiltered 50 in one call.
\<close>

theorem scan_tag_policy:
  "(i < length (explorir_data h) \<and> read_field (explorir_data h) i = Inr v \<longrightarrow>
      (explorir_data h ! i = CHR ''Z'' \<longrightarrow>
         scan i h = scan 9 (h\<lparr>current_filtered_co2 :=
                                 word_of_int (v * uint (scaling_factor h))\<rparr>))
    \<and> (explorir_data h ! i = CHR ''z'' \<longrightarrow>
         scan i h = Some (Inr (h\<lparr>current_unfiltered_co2 :=
                                 word_of_int (v * uint (scaling_factor h))\<rparr>)))
    \<and> (explorir_data h ! i = CHR ''.'' \<longrightarrow>
         scan i h = Some (Inr (h\<lparr>scaling_factor := word_of_int v\<rparr>)))
    \<and> (explorir_data h ! i = CHR ''K'' \<longrightarrow>
         scan i h = Some (Inr (h\<lparr>current_mode := v\<rparr>)))
    \<and> (explorir_data h ! i = CHR ''A'' \<or> explorir_data h ! i = CHR ''a'' \<longrightarrow>
         scan i h = Some (Inr (h\<lparr>digital_filter := word_of_int v\<rparr>)))
    \<and> (explorir_data h ! i = CHR ''F'' \<or> explorir_data h ! i = CHR ''G''
        \<or> explorir_data h ! i = CHR ''X'' \<or> explorir_data h ! i = CHR ''U''
        \<or> explorir_data h ! i = CHR ''u'' \<longrightarrow>
         scan i h = Some (Inr (h\<lparr>zero_point := word_of_int v\<rparr>)))
    \<and> (explorir_data h ! i = CHR ''S'' \<or> explorir_data h ! i = CHR ''s'' \<longrightarrow>
         scan i h = Some (Inr (h\<lparr>pressure_and_concentration_compensation :=
                                 word_of_int v\<rparr>))))
   \<and> explorir_process_response
       (example_handler\<lparr>explorir_data := response_buffer ('' Z 00100 z 00050'' @ [CR, LF])\<rparr>)
     = Some (Inr (example_handler\<lparr>current_filtered_co2 := 100, current_unfiltered_co2 := 50\<rparr>))"
proof (intro conjI impI; (elim conjE disjE)?)
  show "explorir_process_response
       (example_handler\<lparr>explorir_data := response_buffer ('' Z 00100 z 00050'' @ [CR, LF])\<rparr>)
     = Some (Inr (example_handler\<lparr>current_filtered_co2 := 100, current_unfiltered_co2 := 50\<rparr>))"
    by (simp add: eval_defs)
qed (subst scan.simps, simp)+

theorem scan_tag_policy_witness:
  "scan 1 (example_handler\<lparr>explorir_data := response_buffer ('' Z 00100 z 00050'' @ [CR, LF])\<rparr>)
   = scan 9 (example_handler\<lparr>explorir_data := response_buffer ('' Z 00100 z 00050'' @ [CR, LF]),
                             current_filtered_co2 := 100\<rparr>)
   \<and> scan 9 (example_handler\<lparr>explorir_data := response_buffer ('' Z 00100 z 00050'' @ [CR, LF]),
                             current_filtered_co2 := 100\<rparr>)
   = Some (Inr (example_handler\<lparr>explorir_data := response_buffer ('' Z 00100 z 00050'' @ [CR, LF]),
                             current_filtered_co2 := 100, current_unfiltered_co2 := 50\<rparr>))"
proof -
  let ?h = "example_handler\<lparr>explorir_data := response_buffer ('' Z 00100 z 00050'' @ [CR, LF])\<rparr>"
  have 1: "1 < length (explorir_data ?h) \<and> read_field (explorir_data ?h) 1 = Inr 100"
    by (simp add: example_handler_def response_buffer_def cleared_def UART_RX_BUF_SIZE_def
          read_field_def skip_zeros.simps memcpy5_def isspace_def isdigit_def)
  have 2: "9 < length (explorir_data (?h\<lparr>current_filtered_co2 := 100\<rparr>))
      \<and> read_field (explorir_data (?h\<lparr>current_filtered_co2 := 100\<rparr>)) 9 = Inr 50"
    by (simp add: example_handler_def response_buffer_def cleared_def UART_RX_BUF_SIZE_def
          read_field_def skip_zeros.simps memcpy5_def isspace_def isdigit_def)
  show ?thesis
    using scan_tag_policy [of 1 ?h 100] scan_tag_policy [of 9 "?h\<lparr>current_filtered_co2 := 100\<rparr>" 50]
      1 2
    by (simp add: example_handler_def response_buffer_def cleared_def UART_RX_BUF_SIZE_def)
qed

subsection \<open>Replies without the leading space; the cleared buffer\<close>

text \<open>Reading a zero-padded field: the leading zeros are skipped, a field of zeros
  gives 0, and a field without a leading zero fills the array of five.\<close>

lemma digit_char_not_special:
  "k < 10 \<Longrightarrow> \<not> isspace (digit_char k)"
  "k < 10 \<Longrightarrow> digit_char k \<noteq> CHR ''-''"
  "k < 10 \<Longrightarrow> digit_char k \<noteq> CHR ''+''"
  by (auto simp: digit_char_def isspace_def char_of_eq_iff take_bit_eq_mod)

lemma of_char_digit_int: "k < 10 \<Longrightarrow> (of_char (digit_char k) :: int) = 48 + int k"
  using digit_char_props(2) [of k] by (metis of_nat_of_char of_nat_add of_nat_numeral)

lemma atoi_digit_string:
  "k < 10 \<Longrightarrow> atoi (digit_char k # cs) = atoi_digits (int k) cs"
  by (simp add: digit_char_not_special digit_char_props of_char_digit_int)

lemma atoi_digits_digit:
  "k < 10 \<Longrightarrow> atoi_digits acc (digit_char k # cs) = atoi_digits (acc * 10 + int k) cs"
  by (simp add: digit_char_props of_char_digit_int)

lemma atoi_stops:
  "atoi_digits acc (CR # cs) = Inr acc"
  "atoi (CR # LF # NUL # cs) = Inr 0"
  by (simp_all add: isspace_def isdigit_def)

lemma digit_char_0: "digit_char 0 = CHR ''0''"
  by code_simp

lemma skip_zeros_at:
  "i < length d \<Longrightarrow> skip_zeros d i = (if d ! i = CHR ''0'' then skip_zeros d (i + 1) else Inr i)"
  by (subst skip_zeros.simps) simp

lemma skip_zeros_Cons: "skip_zeros (x # d) (Suc i) = map_sum id Suc (skip_zeros d i)"
proof (induction d i rule: skip_zeros.induct)
  case (1 d i)
  show ?case
  proof (cases "length d \<le> i")
    case True
    then show ?thesis by (simp add: skip_zeros.simps [of d i] skip_zeros.simps [of "x # d" "Suc i"])
  next
    case False
    with 1 show ?thesis
      by (simp add: skip_zeros.simps [of d i] skip_zeros.simps [of "x # d" "Suc i"])
  qed
qed

lemma read_field_Cons: "read_field (x # d) (Suc i) = read_field d i"
  by (cases "skip_zeros d (i + 2)") (simp_all add: read_field_def skip_zeros_Cons memcpy5_def)

lemma read_field_five_digits:
  assumes "a < 10" "b < 10" "c < 10" "e < 10" "z < 10"
  shows "read_field (t # CHR '' '' # digit_char z # digit_char a # digit_char b # digit_char c
            # digit_char e # CR # LF # NUL # NUL # NUL # rest) 0
         = (if z = 0 then Inr (int (1000 * a + 100 * b + 10 * c + e)) else Inl ReadPastArray)"
proof -
  note rules = read_field_def skip_zeros_at memcpy5_def digit_char_props(3)
    atoi_digit_string atoi_digits_digit atoi_stops
  note [simp del] = atoi.simps atoi_sign.simps atoi_digits.simps
  consider "z \<noteq> 0" | "z = 0" "a \<noteq> 0" | "z = 0" "a = 0" "b \<noteq> 0" | "z = 0" "a = 0" "b = 0" "c \<noteq> 0"
    | "z = 0" "a = 0" "b = 0" "c = 0" "e \<noteq> 0" | "z = 0" "a = 0" "b = 0" "c = 0" "e = 0"
    by blast
  then show ?thesis
  proof cases
    case 1
    with assms show ?thesis by (simp add: rules atoi_digits.simps(1))
  next
    case 2
    with assms show ?thesis by (simp add: rules digit_char_0)
  next
    case 3
    with assms show ?thesis by (simp add: rules digit_char_0)
  next
    case 4
    with assms show ?thesis by (simp add: rules digit_char_0)
  next
    case 5
    with assms show ?thesis by (simp add: rules digit_char_0)
  next
    case 6
    with assms show ?thesis by (simp add: rules digit_char_0)
  qed
qed

lemma five_digits_value:
  fixes v :: nat
  assumes "v < 10000"
  shows "1000 * (v div 1000 mod 10) + 100 * (v div 100 mod 10) + 10 * (v div 10 mod 10) + v mod 10
         = v"
proof -
  define q1 where "q1 = v div 10"
  define q2 where "q2 = q1 div 10"
  define q3 where "q3 = q2 div 10"
  have d2: "v div 100 = q2" and d3: "v div 1000 = q3"
    by (simp_all add: q1_def q2_def q3_def div_mult2_eq)
  from assms have "q3 < 10" unfolding d3 [symmetric] by simp
  then have m3: "q3 mod 10 = q3" by simp
  have e0: "v = 10 * q1 + v mod 10" by (simp add: q1_def)
  have e1: "q1 = 10 * q2 + q1 mod 10" by (simp add: q2_def)
  have e2: "q2 = 10 * q3 + q2 mod 10" by (simp add: q3_def)
  have "1000 * q3 + 100 * (q2 mod 10) + 10 * (q1 mod 10) + v mod 10 = v"
    using e0 e1 e2 by linarith
  then show ?thesis by (simp add: d2 d3 m3 q1_def [symmetric])
qed

lemma leading_digit_zero:
  fixes v :: nat
  assumes "v \<le> 99999"
  shows "(v div 10000 mod 10 = 0) = (v < 10000)"
proof -
  from assms have "v div 10000 < 10" by simp
  then have "v div 10000 mod 10 = v div 10000" by simp
  then show ?thesis by (simp add: div_eq_0_iff)
qed

lemma read_field_zero_pad5:
  assumes "v \<le> 99999"
  shows "read_field (t # CHR '' '' # zero_pad5 v @ CR # LF # NUL # NUL # NUL # rest) 0
         = (if v < 10000 then Inr (int v) else Inl ReadPastArray)"
  using read_field_five_digits [of "v div 1000 mod 10" "v div 100 mod 10" "v div 10 mod 10"
        "v mod 10" "v div 10000 mod 10" t rest]
    leading_digit_zero [OF assms] five_digits_value [of v]
  by (simp add: zero_pad5_def)

lemma word_of_product:
  "(word_of_int (int v * uint (s :: 16 word)) :: 32 word) = of_nat (v * unat s)"
  by (simp only: uint_nat of_nat_mult [symmetric] of_int_of_nat_eq)

text \<open>
  Claim C3, on the buffers it names: \<open>Z\<close>, a space, the five-character field of
  \<open>v\<close>, CR, LF and zero bytes. For \<open>v\<close> below 10000 the value is stored and the
  cursor is set to 9, one beyond the line feed at offset 8; the scan runs over the
  zero bytes to \<open>explorir_data[128]\<close>. From 10000 on the five digits fill the array
  of five with no terminator, and \<open>atoi\<close> reads beyond it before anything is stored.
  Either way the call does not return a state.
\<close>

theorem filtered_reply_runs_off:
  assumes "v \<le> 99999"
    and "explorir_data h = ''Z '' @ zero_pad5 v @ [CR, LF] @ replicate 119 NUL"
  shows "explorir_process_response h
           = Some (Inl (if v < 10000 then ReadPastBuffer else ReadPastArray))"
proof -
  let ?d = "explorir_data h"
  have shape: "?d = CHR ''Z'' # CHR '' '' # zero_pad5 v @ CR # LF # NUL # NUL # NUL # replicate 116 NUL"
    by (simp add: assms(2) replicate_numeral)
  have len: "length ?d = 128" by (simp add: assms(2) zero_pad5_def)
  have rf: "read_field ?d 0 = (if v < 10000 then Inr (int v) else Inl ReadPastArray)"
    unfolding shape by (rule read_field_zero_pad5 [OF assms(1)])
  have d0: "?d ! 0 = CHR ''Z''" by (simp add: assms(2))
  have first: "scan 0 h = (if v < 10000 then scan 9 (store_field (CHR ''Z'') (int v) h)
                            else Some (Inl ReadPastArray))"
    by (subst scan_unfold) (simp add: scan_step_def len rf recognized_tag_def d0)
  have "scan 9 (store_field (CHR ''Z'') (int v) h) = Some (Inl ReadPastBuffer)"
  proof (rule scan_runs_off, intro allI impI)
    fix j
    assume j: "9 \<le> j \<and> j < length (explorir_data (store_field (CHR ''Z'') (int v) h))"
    have "?d = (''Z '' @ zero_pad5 v @ [CR, LF]) @ replicate 119 NUL"
      by (simp add: assms(2))
    moreover have "length (''Z '' @ zero_pad5 v @ [CR, LF]) = 9"
      by (simp add: zero_pad5_def)
    ultimately have "?d ! j = replicate 119 NUL ! (j - 9)"
      using j by (simp only: nth_append) simp
    moreover from j len have "j - 9 < 119" by auto
    ultimately have "?d ! j = NUL" by (simp only: nth_replicate)
    then show "explorir_data (store_field (CHR ''Z'') (int v) h) ! j \<noteq> LF
        \<and> \<not> recognized_tag (explorir_data (store_field (CHR ''Z'') (int v) h) ! j)"
      by (simp add: recognized_tag_def)
  qed
  with first show ?thesis by (simp add: explorir_process_response_def)
qed

theorem filtered_reply_runs_off_witness:
  "explorir_process_response
       (example_handler\<lparr>explorir_data := response_buffer (''Z 00100'' @ [CR, LF])\<rparr>)
     = Some (Inl ReadPastBuffer)
   \<and> explorir_process_response
       (example_handler\<lparr>explorir_data := response_buffer (''Z 12345'' @ [CR, LF])\<rparr>)
     = Some (Inl ReadPastArray)"
proof -
  have z: "zero_pad5 100 = ''00100''" "zero_pad5 12345 = ''12345''"
    by (simp_all add: zero_pad5_def digit_char_def char_of_eq_iff take_bit_eq_mod)
  have 1: "explorir_data (example_handler\<lparr>explorir_data := response_buffer (''Z 00100'' @ [CR, LF])\<rparr>)
      = ''Z '' @ zero_pad5 100 @ [CR, LF] @ replicate 119 NUL"
    by (simp add: z response_buffer_def cleared_def UART_RX_BUF_SIZE_def)
  have 2: "explorir_data (example_handler\<lparr>explorir_data := response_buffer (''Z 12345'' @ [CR, LF])\<rparr>)
      = ''Z '' @ zero_pad5 12345 @ [CR, LF] @ replicate 119 NUL"
    by (simp add: z response_buffer_def cleared_def UART_RX_BUF_SIZE_def)
  from filtered_reply_runs_off [OF _ 1] filtered_reply_runs_off [OF _ 2]
  show ?thesis by simp
qed

text \<open>For \<open>v\<close> below 10000 the \<open>Z\<close> case does store \<open>v\<close> times the scaling
  factor before the scan goes on from offset 9.\<close>

lemma filtered_reply_stored:
  assumes "v < 10000"
    and "explorir_data h = ''Z '' @ zero_pad5 v @ [CR, LF] @ replicate 119 NUL"
  shows "scan 0 h
           = scan 9 (h\<lparr>current_filtered_co2 := of_nat (v * unat (scaling_factor h))\<rparr>)"
proof -
  let ?d = "explorir_data h"
  have shape: "?d = CHR ''Z'' # CHR '' '' # zero_pad5 v @ CR # LF # NUL # NUL # NUL # replicate 116 NUL"
    by (simp add: assms(2) replicate_numeral)
  have len: "length ?d = 128" by (simp add: assms(2) zero_pad5_def)
  have rf: "read_field ?d 0 = Inr (int v)"
    unfolding shape using read_field_zero_pad5 [of v] assms(1) by simp
  have d0: "?d ! 0 = CHR ''Z''" by (simp add: assms(2))
  show ?thesis
    using rf d0
    by (subst scan_unfold)
       (simp add: scan_step_def len recognized_tag_def store_field_def word_of_product)
qed

text \<open>
  With the space the sensor sends before the tag, the line feed of a single field
  stands at offset 9, where the scan goes on: for \<open>v\<close> up to 9999 the call returns
  with \<open>v\<close> times the scaling factor stored, a product below \<open>2 ^ 32\<close>.
\<close>

lemma filtered_reply_with_leading_space:
  assumes "v \<le> 9999"
    and "explorir_data h = '' Z '' @ zero_pad5 v @ [CR, LF] @ replicate 118 NUL"
  shows "explorir_process_response h
           = Some (Inr (h\<lparr>current_filtered_co2 := of_nat (v * unat (scaling_factor h)),
                           explorir_data := cleared\<rparr>))"
    and "v * unat (scaling_factor h) < 2 ^ 32"
proof -
  let ?d = "explorir_data h"
  have shape: "?d = CHR '' '' # CHR ''Z'' # CHR '' '' # zero_pad5 v
                      @ CR # LF # NUL # NUL # NUL # replicate 115 NUL"
    by (simp add: assms(2) replicate_numeral)
  have len: "length ?d = 128" by (simp add: assms(2) zero_pad5_def)
  have "read_field ?d 1 = read_field (tl ?d) 0"
    unfolding shape using read_field_Cons [of _ _ 0] by simp
  also have "\<dots> = Inr (int v)"
    unfolding shape using read_field_zero_pad5 [of v] assms(1) by simp
  finally have rf: "read_field ?d 1 = Inr (int v)" .
  have d9: "?d ! 9 = LF" by (simp add: assms(2) zero_pad5_def)
  have d0: "?d ! 0 = CHR '' ''" and d1: "?d ! 1 = CHR ''Z''" by (simp_all add: assms(2))
  have "scan 0 h = scan 1 h"
    by (subst scan_unfold) (simp add: scan_step_def len recognized_tag_def d0)
  also have "\<dots> = scan 9 (store_field (CHR ''Z'') (int v) h)"
    using rf d1 by (subst scan_unfold) (simp add: scan_step_def len recognized_tag_def)
  also have "\<dots> = Some (Inr (store_field (CHR ''Z'') (int v) h))"
    by (subst scan_unfold) (simp add: scan_step_def len d9)
  finally show "explorir_process_response h
           = Some (Inr (h\<lparr>current_filtered_co2 := of_nat (v * unat (scaling_factor h)),
                           explorir_data := cleared\<rparr>))"
    by (simp add: explorir_process_response_def store_field_def word_of_product cleared_def)
  have "unat (scaling_factor h) < 65536" using unsigned_less [of "scaling_factor h", where ?'a = nat] by simp
  with assms(1) have "v * unat (scaling_factor h) \<le> 9999 * 65535"
    by (intro mult_mono) simp_all
  then show "v * unat (scaling_factor h) < 2 ^ 32" by simp
qed

lemma process_cleared:
  assumes "explorir_data h = cleared"
  shows "explorir_process_response h = Some (Inl ReadPastBuffer)"
proof -
  have "scan 0 h = Some (Inl ReadPastBuffer)"
    by (rule scan_runs_off) (simp add: assms cleared_def recognized_tag_def)
  then show ?thesis by (simp add: explorir_process_response_def)
qed

text \<open>
  Claim C4, as the code has it. After a call that returns, the buffer is all zero bytes
  and \<open>err_code\<close> is what it was. A second call on that buffer is not a step without
  effect: there is no line feed in it, and the scan reads \<open>explorir_data[128]\<close>.
\<close>

theorem second_call_on_cleared_buffer:
  "explorir_process_response h = Some (Inr h') \<Longrightarrow>
     explorir_data h' = cleared \<and> err_code h' = err_code h
     \<and> explorir_process_response h' = Some (Inl ReadPastBuffer)"
proof -
  assume a: "explorir_process_response h = Some (Inr h')"
  then obtain h1 where h1: "scan 0 h = Some (Inr h1)"
    and h': "h' = h1\<lparr>explorir_data := replicate UART_RX_BUF_SIZE NUL\<rparr>"
    by (auto simp: explorir_process_response_def split: option.splits sum.splits)
  from h' have c: "explorir_data h' = cleared" by (simp add: cleared_def)
  moreover from scan_keeps [OF h1] h' have "err_code h' = err_code h" by simp
  moreover from c have "explorir_process_response h' = Some (Inl ReadPastBuffer)"
    by (rule process_cleared)
  ultimately show ?thesis by simp
qed

theorem second_call_on_cleared_buffer_witness:
  "explorir_data (example_handler\<lparr>current_filtered_co2 := 100\<rparr>) = cleared
   \<and> explorir_process_response (example_handler\<lparr>current_filtered_co2 := 100\<rparr>)
       = Some (Inl ReadPastBuffer)"
proof -
  have "explorir_process_response
       (example_handler\<lparr>explorir_data := response_buffer ('' Z 00100'' @ [CR, LF])\<rparr>)
     = Some (Inr (example_handler\<lparr>current_filtered_co2 := 100\<rparr>))"
    by (simp add: eval_defs)
  from second_call_on_cleared_buffer [OF this] show ?thesis by simp
qed

text \<open>
  The first call on \<open> Z 00100\<close>, CR, LF returns with the buffer cleared; the second
  call does not return that state again.
\<close>

theorem second_call_counterexample:
  "explorir_process_response
       (example_handler\<lparr>explorir_data := response_buffer ('' Z 00100'' @ [CR, LF])\<rparr>)
     = Some (Inr (example_handler\<lparr>current_filtered_co2 := 100\<rparr>))
   \<and> explorir_data (example_handler\<lparr>current_filtered_co2 := 100\<rparr>) = replicate 128 NUL
   \<and> explorir_process_response (example_handler\<lparr>current_filtered_co2 := 100\<rparr>)
       \<noteq> Some (Inr (example_handler\<lparr>current_filtered_co2 := 100\<rparr>))"
  by (simp add: eval_defs)

subsection \<open>Reading within the buffer\<close>

text \<open>The offsets at which the loop acts: on every byte before \<open>next_stop d i\<close> it
  only advances the cursor.\<close>

lemma next_stop_ge: "i \<le> next_stop d i"
proof (induction d i rule: next_stop.induct)
  case (1 d i)
  show ?case
  proof (cases "length d \<le> i \<or> d ! i = LF \<or> recognized_tag (d ! i)")
    case True
    then show ?thesis by (subst next_stop.simps) simp
  next
    case False
    with 1 have "i + 1 \<le> next_stop d (i + 1)" by simp
    with False show ?thesis by (subst next_stop.simps) simp
  qed
qed

lemma next_stop_stop:
  "length d \<le> next_stop d i \<or> d ! next_stop d i = LF \<or> recognized_tag (d ! next_stop d i)"
proof (induction d i rule: next_stop.induct)
  case (1 d i)
  show ?case
  proof (cases "length d \<le> i \<or> d ! i = LF \<or> recognized_tag (d ! i)")
    case True
    then have "next_stop d i = i" by (subst next_stop.simps) simp
    with True show ?thesis by simp
  next
    case False
    then have "next_stop d i = next_stop d (i + 1)" by (subst next_stop.simps) simp
    with 1 False show ?thesis by simp
  qed
qed

lemma next_stop_quiet:
  "i \<le> k \<Longrightarrow> k < next_stop d i \<Longrightarrow>
     k < length d \<and> d ! k \<noteq> LF \<and> \<not> recognized_tag (d ! k)"
proof (induction d i rule: next_stop.induct)
  case (1 d i)
  show ?case
  proof (cases "length d \<le> i \<or> d ! i = LF \<or> recognized_tag (d ! i)")
    case True
    then have "next_stop d i = i" by (subst next_stop.simps) simp
    with 1(2,3) show ?thesis by simp
  next
    case False
    then have e: "next_stop d i = next_stop d (i + 1)" by (subst next_stop.simps) simp
    show ?thesis
    proof (cases "k = i")
      case True
      with False show ?thesis by simp
    next
      case False
      with 1(2) have "i + 1 \<le> k" by simp
      with 1(1) [OF \<open>\<not> (length d \<le> i \<or> d ! i = LF \<or> recognized_tag (d ! i))\<close>] 1(3) e
      show ?thesis by simp
    qed
  qed
qed

lemma next_stop_mid:
  "i \<le> k \<Longrightarrow> k \<le> next_stop d i \<Longrightarrow> next_stop d k = next_stop d i"
proof (induction d i rule: next_stop.induct)
  case (1 d i)
  show ?case
  proof (cases "k = i")
    case True
    then show ?thesis by simp
  next
    case ne: False
    with 1(2) have lt: "i < k" by simp
    with 1(3) have "i < next_stop d i" by simp
    then have ns: "\<not> (length d \<le> i \<or> d ! i = LF \<or> recognized_tag (d ! i))"
      by (subst (asm) next_stop.simps) (auto split: if_splits)
    then have e: "next_stop d i = next_stop d (i + 1)" by (subst next_stop.simps) simp
    from 1(1) [OF ns] lt 1(3) e show ?thesis by simp
  qed
qed

lemma scan_walk: "scan i h = scan (next_stop (explorir_data h) i) h"
proof (induction "explorir_data h" i rule: next_stop.induct)
  case (1 i)
  let ?d = "explorir_data h"
  show ?case
  proof (cases "length ?d \<le> i \<or> ?d ! i = LF \<or> recognized_tag (?d ! i)")
    case True
    then have "next_stop ?d i = i" by (subst next_stop.simps) simp
    then show ?thesis by simp
  next
    case False
    then have e: "next_stop ?d i = next_stop ?d (i + 1)" by (subst next_stop.simps) simp
    from False have "scan i h = scan (i + 1) h"
      by (subst scan_unfold) (simp add: scan_step_def)
    with 1 [OF False] e show ?thesis by simp
  qed
qed

lemma scan_fuel_walk:
  "scan_fuel (n + (next_stop (explorir_data h) i - i)) i h
     = scan_fuel n (next_stop (explorir_data h) i) h"
proof (induction "explorir_data h" i rule: next_stop.induct)
  case (1 i)
  let ?d = "explorir_data h"
  show ?case
  proof (cases "length ?d \<le> i \<or> ?d ! i = LF \<or> recognized_tag (?d ! i)")
    case True
    then have "next_stop ?d i = i" by (subst next_stop.simps) simp
    then show ?thesis by simp
  next
    case False
    then have e: "next_stop ?d i = next_stop ?d (i + 1)" by (subst next_stop.simps) simp
    have "i + 1 \<le> next_stop ?d (i + 1)" by (rule next_stop_ge)
    then have "n + (next_stop ?d i - i) = Suc (n + (next_stop ?d (i + 1) - (i + 1)))"
      unfolding e by simp
    then have "scan_fuel (n + (next_stop ?d i - i)) i h
        = scan_step (scan_fuel (n + (next_stop ?d (i + 1) - (i + 1)))) i h"
      by simp
    also from False have "\<dots> = scan_fuel (n + (next_stop ?d (i + 1) - (i + 1))) (i + 1) h"
      by (simp add: scan_step_def)
    also from 1 [OF False] have "\<dots> = scan_fuel n (next_stop ?d (i + 1)) h" .
    finally show ?thesis unfolding e .
  qed
qed

lemma scan_fuel_sound: "scan_fuel n i h = Some r \<Longrightarrow> scan i h = Some r"
proof (induction n arbitrary: i h)
  case 0
  then show ?case by simp
next
  case (Suc n)
  from Suc.prems have s: "scan_step (scan_fuel n) i h = Some r" by simp
  have "scan_step scan i h = Some r"
  proof (cases "length (explorir_data h) \<le> i \<or> explorir_data h ! i = LF")
    case True
    with s show ?thesis by (auto simp: scan_step_def)
  next
    case nl: False
    show ?thesis
    proof (cases "recognized_tag (explorir_data h ! i)")
      case True
      with nl s show ?thesis
        by (auto simp: scan_step_def split: sum.splits if_splits dest: Suc.IH)
    next
      case False
      with nl s show ?thesis by (auto simp: scan_step_def dest: Suc.IH)
    qed
  qed
  then show ?case by (simp add: scan_unfold [symmetric])
qed

text \<open>At such an offset the loop ends, or stores a filtered value and goes back to
  offset 9. A \<open>Z\<close> met from offset 9 on is met again each time its field has been
  stored.\<close>

lemma scan_at_stop: "scan i h = scan_step scan (next_stop (explorir_data h) i) h"
  using scan_walk [of i h] scan_unfold [of "next_stop (explorir_data h) i" h] by simp

lemma scan_fuel_at_stop:
  assumes "next_stop (explorir_data h) i - i < n"
  shows "scan_fuel n i h
           = scan_step (scan_fuel (n - Suc (next_stop (explorir_data h) i - i)))
               (next_stop (explorir_data h) i) h"
proof -
  let ?k = "next_stop (explorir_data h) i - i"
  from assms have "n = Suc (n - Suc ?k) + ?k" by simp
  then have "scan_fuel n i h = scan_fuel (Suc (n - Suc ?k) + ?k) i h" by simp
  also have "\<dots> = scan_fuel (Suc (n - Suc ?k)) (next_stop (explorir_data h) i) h"
    by (rule scan_fuel_walk)
  finally show ?thesis by simp
qed

lemma scan_step_ends:
  assumes "ends_scan (explorir_data h) j"
    and "explorir_data h ! j = LF \<or> recognized_tag (explorir_data h ! j)"
  shows "\<exists>h'. scan_step f j h = Some (Inr h')"
  using assms
  by (auto simp: ends_scan_def field_read_def scan_step_def split: sum.splits)

lemma scan_rereads_aux:
  assumes "scan i h = Some y"
  shows "\<not> (9 \<le> i \<and> i \<le> next_stop (explorir_data h) 9
            \<and> next_stop (explorir_data h) 9 < length (explorir_data h)
            \<and> explorir_data h ! next_stop (explorir_data h) 9 = CHR ''Z''
            \<and> field_read (explorir_data h) (next_stop (explorir_data h) 9))"
  using assms
proof (induction rule: scan_induct)
  case (step f i h y)
  let ?d = "explorir_data h"
  let ?j = "next_stop ?d 9"
  show ?case
  proof
    assume a: "9 \<le> i \<and> i \<le> ?j \<and> ?j < length ?d \<and> ?d ! ?j = CHR ''Z'' \<and> field_read ?d ?j"
    show False
    proof (cases "i = ?j")
      case True
      from a obtain v where v: "read_field ?d ?j = Inr v"
        by (auto simp: field_read_def split: sum.splits)
      with a True step(2) have "f 9 (store_field (CHR ''Z'') v h) = Some y"
        by (simp add: scan_step_def recognized_tag_def)
      from step(1) [OF this] a next_stop_ge [of 9 ?d] show False by simp
    next
      case False
      with a have lt: "i < ?j" by simp
      with a next_stop_quiet [of 9 i ?d]
      have q: "i < length ?d" "?d ! i \<noteq> LF" "\<not> recognized_tag (?d ! i)" by simp_all
      with step(2) have "f (i + 1) h = Some y" by (simp add: scan_step_def)
      from step(1) [OF this] a lt show False by simp
    qed
  qed
qed

lemma scan_rereads:
  assumes "next_stop (explorir_data h) 9 < length (explorir_data h)"
    and "explorir_data h ! next_stop (explorir_data h) 9 = CHR ''Z''"
    and "field_read (explorir_data h) (next_stop (explorir_data h) 9)"
  shows "scan 9 h = None"
  using scan_rereads_aux [of 9 h] assms next_stop_ge [of 9 "explorir_data h"]
  by (cases "scan 9 h") auto

lemma scan_from_9_returns:
  assumes "scan 9 g = Some (Inr g')"
  shows "ends_scan (explorir_data g) (next_stop (explorir_data g) 9)"
proof -
  let ?d = "explorir_data g"
  let ?j = "next_stop ?d 9"
  from assms have s: "scan_step scan ?j g = Some (Inr g')"
    by (simp add: scan_at_stop [symmetric])
  then have inb: "?j < length ?d" by (auto simp: scan_step_def split: if_splits)
  show ?thesis
  proof (cases "?d ! ?j = LF")
    case True
    with inb show ?thesis by (simp add: ends_scan_def)
  next
    case False
    with inb next_stop_stop [of ?d 9] have tag: "recognized_tag (?d ! ?j)" by simp
    with s inb False obtain v where v: "read_field ?d ?j = Inr v"
      by (auto simp: scan_step_def split: sum.splits)
    then have fr: "field_read ?d ?j" by (simp add: field_read_def)
    have "?d ! ?j \<noteq> CHR ''Z''"
    proof
      assume "?d ! ?j = CHR ''Z''"
      with inb fr have "scan 9 g = None" by (intro scan_rereads)
      with assms show False by simp
    qed
    with inb fr show ?thesis by (simp add: ends_scan_def)
  qed
qed

lemma returns_scanned_in_bounds:
  assumes "scan 0 h = Some (Inr h')"
  shows "scanned_in_bounds (explorir_data h)"
proof -
  let ?d = "explorir_data h"
  let ?j = "next_stop ?d 0"
  from assms have s: "scan_step scan ?j h = Some (Inr h')"
    by (simp add: scan_at_stop [symmetric])
  then have inb: "?j < length ?d" by (auto simp: scan_step_def split: if_splits)
  show ?thesis
  proof (cases "?d ! ?j = LF")
    case True
    with inb show ?thesis by (simp add: scanned_in_bounds_def ends_scan_def)
  next
    case False
    with inb next_stop_stop [of ?d 0] have tag: "recognized_tag (?d ! ?j)" by simp
    with s inb False obtain v where v: "read_field ?d ?j = Inr v"
      by (auto simp: scan_step_def split: sum.splits)
    then have fr: "field_read ?d ?j" by (simp add: field_read_def)
    show ?thesis
    proof (cases "?d ! ?j = CHR ''Z''")
      case nz: False
      with inb fr show ?thesis by (simp add: scanned_in_bounds_def ends_scan_def)
    next
      case z: True
      with s inb v have "scan 9 (store_field (CHR ''Z'') v h) = Some (Inr h')"
        by (simp add: scan_step_def recognized_tag_def)
      from scan_from_9_returns [OF this] have e9: "ends_scan ?d (next_stop ?d 9)" by simp
      have "?j < 9"
      proof (rule ccontr)
        assume "\<not> ?j < 9"
        then have "next_stop ?d 9 = ?j" by (intro next_stop_mid) simp_all
        with e9 z show False by (simp add: ends_scan_def)
      qed
      with inb z fr e9 show ?thesis by (simp add: scanned_in_bounds_def)
    qed
  qed
qed

lemma ends_scan_stop:
  "ends_scan d (next_stop d i) \<Longrightarrow>
     d ! next_stop d i = LF \<or> recognized_tag (d ! next_stop d i)"
  using next_stop_stop [of d i] by (auto simp: ends_scan_def)

lemma scanned_in_bounds_returns:
  assumes "scanned_in_bounds (explorir_data h)"
  shows "\<exists>h'. scan_fuel (length (explorir_data h)) 0 h = Some (Inr h')"
proof -
  let ?d = "explorir_data h"
  let ?j = "next_stop ?d 0"
  let ?n = "length ?d"
  from assms consider (one) "ends_scan ?d ?j"
    | (two) "?j < 9" "?j < ?n" "?d ! ?j = CHR ''Z''" "field_read ?d ?j"
        "ends_scan ?d (next_stop ?d 9)"
    unfolding scanned_in_bounds_def by blast
  then show ?thesis
  proof cases
    case one
    then have "?j < ?n" by (simp add: ends_scan_def)
    then have "scan_fuel ?n 0 h = scan_step (scan_fuel (?n - Suc (?j - 0))) ?j h"
      by (intro scan_fuel_at_stop) simp
    with scan_step_ends [OF one ends_scan_stop [OF one]] show ?thesis by simp
  next
    case two
    let ?g = "\<lambda>v. store_field (CHR ''Z'') v h"
    let ?k = "next_stop ?d 9"
    from two(4) obtain v where v: "read_field ?d ?j = Inr v"
      by (auto simp: field_read_def split: sum.splits)
    from two(5) have k: "?k < ?n" by (simp add: ends_scan_def)
    have k9: "9 \<le> ?k" by (rule next_stop_ge)
    from two(2) have "scan_fuel ?n 0 h = scan_step (scan_fuel (?n - Suc (?j - 0))) ?j h"
      by (intro scan_fuel_at_stop) simp
    also from two v have "\<dots> = scan_fuel (?n - Suc ?j) 9 (?g v)"
      by (simp add: scan_step_def recognized_tag_def)
    also have "\<dots> = scan_step (scan_fuel (?n - Suc ?j - Suc (?k - 9))) ?k (?g v)"
      using scan_fuel_at_stop [of "?g v" 9 "?n - Suc ?j"] two(1) k k9 by simp
    finally have "scan_fuel ?n 0 h
        = scan_step (scan_fuel (?n - Suc ?j - Suc (?k - 9))) ?k (?g v)" .
    moreover have "\<exists>h'. scan_step (scan_fuel (?n - Suc ?j - Suc (?k - 9))) ?k (?g v)
        = Some (Inr h')"
      using two(5) ends_scan_stop [OF two(5)] by (intro scan_step_ends) simp_all
    ultimately show ?thesis by simp
  qed
qed

text \<open>The zero-skipping loop moves the cursor forward only. Replies of the wire format
  with the leading space: one field, and the filtered and the unfiltered field on one
  line.\<close>

lemma skip_zeros_bound: "skip_zeros d i = Inr j \<Longrightarrow> i \<le> j \<and> j < length d"
proof (induction d i rule: skip_zeros.induct)
  case (1 d i)
  show ?case
  proof (cases "length d \<le> i")
    case True
    with 1(2) show ?thesis by (simp add: skip_zeros.simps [of d i])
  next
    case inb: False
    show ?thesis
    proof (cases "d ! i = CHR ''0''")
      case True
      with inb 1(2) have "skip_zeros d (i + 1) = Inr j" by (simp add: skip_zeros.simps [of d i])
      from 1(1) [OF inb True this] show ?thesis by simp
    next
      case False
      with inb 1(2) show ?thesis by (simp add: skip_zeros.simps [of d i])
    qed
  qed
qed

lemma read_field_append: "read_field (xs @ d) (length xs + i) = read_field d i"
  by (induction xs) (simp_all add: read_field_Cons)

lemma atoi_stops_space:
  "atoi_digits acc (SPACE # cs) = Inr acc"
  "atoi (SPACE # CHR ''z'' # cs) = Inr 0"
  by (simp_all add: isspace_def isdigit_def)

lemma read_field_five_digits_space:
  assumes "a < 10" "b < 10" "c < 10" "e < 10" "z < 10"
  shows "read_field (t # SPACE # digit_char z # digit_char a # digit_char b # digit_char c
            # digit_char e # SPACE # CHR ''z'' # SPACE # x # y # rest) 0
         = (if z = 0 then Inr (int (1000 * a + 100 * b + 10 * c + e)) else Inl ReadPastArray)"
proof -
  note rules = read_field_def skip_zeros_at memcpy5_def digit_char_props(3)
    atoi_digit_string atoi_digits_digit atoi_stops_space
  note [simp del] = atoi.simps atoi_sign.simps atoi_digits.simps
  consider "z \<noteq> 0" | "z = 0" "a \<noteq> 0" | "z = 0" "a = 0" "b \<noteq> 0" | "z = 0" "a = 0" "b = 0" "c \<noteq> 0"
    | "z = 0" "a = 0" "b = 0" "c = 0" "e \<noteq> 0" | "z = 0" "a = 0" "b = 0" "c = 0" "e = 0"
    by blast
  then show ?thesis
  proof cases
    case 1
    with assms show ?thesis by (simp add: rules atoi_digits.simps(1))
  next
    case 2
    with assms show ?thesis by (simp add: rules digit_char_0)
  next
    case 3
    with assms show ?thesis by (simp add: rules digit_char_0)
  next
    case 4
    with assms show ?thesis by (simp add: rules digit_char_0)
  next
    case 5
    with assms show ?thesis by (simp add: rules digit_char_0)
  next
    case 6
    with assms show ?thesis by (simp add: rules digit_char_0)
  qed
qed

lemma read_field_zero_pad5_space:
  assumes "v \<le> 9999"
  shows "read_field (t # SPACE # zero_pad5 v @ SPACE # CHR ''z'' # SPACE # x # y # rest) 0
         = Inr (int v)"
  using read_field_five_digits_space [of "v div 1000 mod 10" "v div 100 mod 10" "v div 10 mod 10"
        "v mod 10" "v div 10000 mod 10" t x y rest]
    leading_digit_zero [of v] five_digits_value [of v] assms
  by (simp add: zero_pad5_def)

lemma length_zero_pad5: "length (zero_pad5 v) = 5"
  by (simp add: zero_pad5_def)

lemma single_reply_in_bounds:
  assumes "recognized_tag t" and "v \<le> 9999"
  shows "scanned_in_bounds (response_buffer ([SPACE, t, SPACE] @ zero_pad5 v @ [CR, LF]))"
proof -
  define d where "d = response_buffer ([SPACE, t, SPACE] @ zero_pad5 v @ [CR, LF])"
  have shape: "d = SPACE # t # SPACE # zero_pad5 v
                      @ CR # LF # NUL # NUL # NUL # replicate 115 NUL"
    by (simp add: d_def response_buffer_def cleared_def UART_RX_BUF_SIZE_def length_zero_pad5
          replicate_numeral)
  have len: "length d = 128"
    by (simp add: d_def response_buffer_def cleared_def UART_RX_BUF_SIZE_def length_zero_pad5)
  have d0: "d ! 0 = SPACE" and d1: "d ! Suc 0 = t" and d9: "d ! 9 = LF"
    by (simp_all add: d_def response_buffer_def zero_pad5_def)
  have "read_field d 1 = read_field (tl d) 0"
    unfolding shape using read_field_Cons [of _ _ 0] by simp
  also have "\<dots> = Inr (int v)"
    unfolding shape using read_field_zero_pad5 [of v] assms(2) by simp
  finally have fr: "field_read d 1" by (simp add: field_read_def)
  have "next_stop d 0 = next_stop d 1"
    by (subst next_stop.simps) (simp add: len d0 recognized_tag_def)
  also have "\<dots> = 1"
    using assms(1) by (subst next_stop.simps) (simp add: d1)
  finally have n0: "next_stop d 0 = 1" .
  have n9: "next_stop d 9 = 9"
    by (subst next_stop.simps) (simp add: d9)
  have "scanned_in_bounds d"
  proof (cases "t = CHR ''Z''")
    case True
    with n0 n9 fr d1 d9 len show ?thesis
      by (simp add: scanned_in_bounds_def ends_scan_def)
  next
    case False
    with n0 fr d1 len show ?thesis
      by (simp add: scanned_in_bounds_def ends_scan_def)
  qed
  then show ?thesis by (simp only: d_def)
qed

lemma combined_reply_in_bounds:
  assumes "v \<le> 9999" and "w \<le> 9999"
  shows "scanned_in_bounds
           (response_buffer ('' Z '' @ zero_pad5 v @ '' z '' @ zero_pad5 w @ [CR, LF]))"
proof -
  define d where
    "d = response_buffer ('' Z '' @ zero_pad5 v @ '' z '' @ zero_pad5 w @ [CR, LF])"
  define tail where
    "tail = CHR ''z'' # SPACE # zero_pad5 w @ CR # LF # NUL # NUL # NUL # replicate 107 NUL"
  have shape: "d = SPACE # CHR ''Z'' # SPACE # zero_pad5 v @ SPACE # tail"
    by (simp add: d_def tail_def response_buffer_def cleared_def UART_RX_BUF_SIZE_def
          length_zero_pad5 replicate_numeral)
  have len: "length d = 128"
    by (simp add: d_def response_buffer_def cleared_def UART_RX_BUF_SIZE_def length_zero_pad5)
  have d0: "d ! 0 = SPACE" and d1: "d ! Suc 0 = CHR ''Z''" and d9: "d ! 9 = CHR ''z''"
    by (simp_all add: d_def response_buffer_def zero_pad5_def)
  have "read_field d 1 = read_field (tl d) 0"
    unfolding shape using read_field_Cons [of _ _ 0] by simp
  also have "\<dots> = Inr (int v)"
    unfolding shape tail_def using read_field_zero_pad5_space [of v] assms(1)
    by (simp add: zero_pad5_def [of w])
  finally have fr1: "field_read d 1" by (simp add: field_read_def)
  have "d = (SPACE # CHR ''Z'' # SPACE # zero_pad5 v @ [SPACE]) @ tail"
    by (simp add: shape)
  moreover have "length (SPACE # CHR ''Z'' # SPACE # zero_pad5 v @ [SPACE]) = 9"
    by (simp add: length_zero_pad5)
  ultimately have "read_field d 9 = read_field tail 0"
    using read_field_append [of "SPACE # CHR ''Z'' # SPACE # zero_pad5 v @ [SPACE]" tail 0]
    by simp
  also have "\<dots> = Inr (int w)"
    unfolding tail_def using read_field_zero_pad5 [of w] assms(2) by simp
  finally have fr9: "field_read d 9" by (simp add: field_read_def)
  have "next_stop d 0 = next_stop d 1"
    by (subst next_stop.simps) (simp add: len d0 recognized_tag_def)
  also have "\<dots> = 1"
    by (subst next_stop.simps) (simp add: d1 recognized_tag_def)
  finally have n0: "next_stop d 0 = 1" .
  have n9: "next_stop d 9 = 9"
    by (subst next_stop.simps) (simp add: d9 recognized_tag_def)
  from n0 n9 fr1 fr9 d1 d9 len have "scanned_in_bounds d"
    by (simp add: scanned_in_bounds_def ends_scan_def)
  then show ?thesis by (simp only: d_def)
qed

text \<open>The faults of the scanner are reads: beyond the buffer, or beyond the array of
  five that \<open>atoi\<close> is given.\<close>

lemma atoi_digits_fault: "atoi_digits acc cs = Inl e \<Longrightarrow> e = ReadPastArray"
  by (induction cs arbitrary: acc) (auto split: if_splits)

lemma atoi_sign_fault: "atoi_sign cs = Inl e \<Longrightarrow> e = ReadPastArray"
proof (cases cs)
  case Nil
  then show "atoi_sign cs = Inl e \<Longrightarrow> e = ReadPastArray" by simp
next
  case (Cons c cs')
  assume "atoi_sign cs = Inl e"
  with Cons show "e = ReadPastArray"
    by (cases "atoi_digits 0 cs'") (auto split: if_splits dest: atoi_digits_fault)
qed

lemma atoi_fault: "atoi cs = Inl e \<Longrightarrow> e = ReadPastArray"
proof (induction cs)
  case Nil
  then show ?case by simp
next
  case (Cons c cs)
  show ?case
  proof (cases "isspace c")
    case True
    with Cons show ?thesis by simp
  next
    case False
    with Cons.prems have "atoi_sign (c # cs) = Inl e" by simp
    then show ?thesis by (rule atoi_sign_fault)
  qed
qed

lemma skip_zeros_fault: "skip_zeros d i = Inl e \<Longrightarrow> e = ReadPastBuffer"
proof (induction d i rule: skip_zeros.induct)
  case (1 d i)
  show ?case
  proof (cases "length d \<le> i")
    case True
    with 1(2) show ?thesis by (simp add: skip_zeros.simps [of d i])
  next
    case inb: False
    show ?thesis
    proof (cases "d ! i = CHR ''0''")
      case True
      with inb 1(2) have "skip_zeros d (i + 1) = Inl e" by (simp add: skip_zeros.simps [of d i])
      from 1(1) [OF inb True this] show ?thesis .
    next
      case False
      with inb 1(2) show ?thesis by (simp add: skip_zeros.simps [of d i])
    qed
  qed
qed

lemma read_field_fault:
  "read_field d i = Inl e \<Longrightarrow> e = ReadPastBuffer \<or> e = ReadPastArray"
  by (auto simp: read_field_def memcpy5_def split: sum.splits if_splits
      dest: skip_zeros_fault atoi_fault)

lemma scan_fault_aux:
  assumes "scan i h = Some y"
  shows "\<forall>e. y = Inl e \<longrightarrow> e = ReadPastBuffer \<or> e = ReadPastArray"
  using assms
proof (induction rule: scan_induct)
  case (step f i h y)
  have IH: "\<And>i h e. f i h = Some (Inl e) \<Longrightarrow> e = ReadPastBuffer \<or> e = ReadPastArray"
    using step(1) by blast
  from step(2) show ?case
    by (auto simp: scan_step_def split: if_splits sum.splits
        dest: IH read_field_fault)
qed

lemma process_response_fault:
  "explorir_process_response h = Some (Inl e) \<Longrightarrow> e = ReadPastBuffer \<or> e = ReadPastArray"
  using scan_fault_aux [of 0 h]
  by (auto simp: explorir_process_response_def split: option.splits sum.splits)

lemmas bounds_defs = scanned_in_bounds_def ends_scan_def field_read_def next_stop.simps
  recognized_tag_def

text \<open>
  Two buffers without the bound the claim states. On the cleared buffer the scan finds no
  line feed and reads \<open>explorir_data[128]\<close>. On a line with a second \<open>Z\<close> field at
  offset 9 the cursor is set back to 9 each time the field is stored: the call never
  returns.
\<close>

theorem scan_leaves_buffer_counterexample:
  "explorir_process_response example_handler = Some (Inl ReadPastBuffer)
   \<and> explorir_process_response
       (example_handler\<lparr>explorir_data := response_buffer ('' Z 00100 Z 00050'' @ [CR, LF])\<rparr>)
     = None"
proof
  show "explorir_process_response example_handler = Some (Inl ReadPastBuffer)"
    by (simp add: eval_defs)
  let ?d = "response_buffer ('' Z 00100 Z 00050'' @ [CR, LF])"
  let ?h = "example_handler\<lparr>explorir_data := ?d\<rparr>"
  have "scan 0 ?h = scan 9 (?h\<lparr>current_filtered_co2 := 100\<rparr>)"
    apply (subst scan.simps)
    apply (simp add: example_handler_def response_buffer_def cleared_def UART_RX_BUF_SIZE_def)
    apply (subst scan.simps)
    apply (simp add: example_handler_def response_buffer_def cleared_def UART_RX_BUF_SIZE_def
        read_field_def skip_zeros.simps memcpy5_def isspace_def isdigit_def)
    done
  moreover have "scan 9 (?h\<lparr>current_filtered_co2 := 100\<rparr>) = None"
    by (rule scan_loops [where v = 50])
       (simp_all add: example_handler_def response_buffer_def cleared_def UART_RX_BUF_SIZE_def
          read_field_def skip_zeros.simps memcpy5_def isspace_def isdigit_def)
  ultimately show "explorir_process_response ?h = None"
    by (simp add: explorir_process_response_def)
qed

text \<open>
  Claim C2, as the code has it. The scanner has no bound check of its own; whether a call
  stays within the buffer depends on the bytes in it. Let the stops of a buffer be its
  line feeds and tag bytes. The call returns, with no read outside the buffer or the
  array of five, exactly when the first stop from offset 0 is a line feed, or a tag
  other than \<open>Z\<close> whose field is read within bounds, or a \<open>Z\<close> below offset 9 whose
  field is read within bounds and the first stop from offset 9 is a line feed or a tag
  other than \<open>Z\<close> whose field is read within bounds. In that case the loop condition
  is evaluated at most as many times as the buffer has bytes, and a zero-skipping loop
  that ends within the buffer has only moved the cursor forward. Such buffers are every
  reply of a space, a tag, a space, the five-character field of a value up to 9999, CR
  and LF, and the filtered and unfiltered fields of two such values on one line. On every
  other buffer the call reads beyond the buffer or beyond the array of five, or never
  returns.
\<close>

theorem scan_within_buffer:
  "(scanned_in_bounds (explorir_data h) \<longrightarrow>
      (\<exists>h'. scan_fuel (length (explorir_data h)) 0 h = Some (Inr h')
            \<and> explorir_process_response h = Some (Inr (h'\<lparr>explorir_data := cleared\<rparr>))))
   \<and> (\<not> scanned_in_bounds (explorir_data h) \<longrightarrow>
        explorir_process_response h = None
        \<or> explorir_process_response h = Some (Inl ReadPastBuffer)
        \<or> explorir_process_response h = Some (Inl ReadPastArray))
   \<and> (skip_zeros d i = Inr j \<longrightarrow> i \<le> j \<and> j < length d)
   \<and> (recognized_tag t \<and> v \<le> 9999 \<longrightarrow>
        scanned_in_bounds (response_buffer ([SPACE, t, SPACE] @ zero_pad5 v @ [CR, LF])))
   \<and> (v \<le> 9999 \<and> w \<le> 9999 \<longrightarrow>
        scanned_in_bounds
          (response_buffer ('' Z '' @ zero_pad5 v @ '' z '' @ zero_pad5 w @ [CR, LF])))"
proof (intro conjI impI)
  assume "scanned_in_bounds (explorir_data h)"
  then obtain h' where f: "scan_fuel (length (explorir_data h)) 0 h = Some (Inr h')"
    using scanned_in_bounds_returns by blast
  then have "scan 0 h = Some (Inr h')" by (rule scan_fuel_sound)
  then have "explorir_process_response h = Some (Inr (h'\<lparr>explorir_data := cleared\<rparr>))"
    by (simp add: explorir_process_response_def cleared_def)
  with f show "\<exists>h'. scan_fuel (length (explorir_data h)) 0 h = Some (Inr h')
            \<and> explorir_process_response h = Some (Inr (h'\<lparr>explorir_data := cleared\<rparr>))"
    by blast
next
  assume n: "\<not> scanned_in_bounds (explorir_data h)"
  show "explorir_process_response h = None
        \<or> explorir_process_response h = Some (Inl ReadPastBuffer)
        \<or> explorir_process_response h = Some (Inl ReadPastArray)"
  proof (cases "scan 0 h")
    case None
    then show ?thesis by (simp add: explorir_process_response_def)
  next
    case (Some r)
    show ?thesis
    proof (cases r)
      case (Inl e)
      with Some have "explorir_process_response h = Some (Inl e)"
        by (simp add: explorir_process_response_def)
      with process_response_fault [of h e] show ?thesis by auto
    next
      case (Inr h')
      with Some n returns_scanned_in_bounds [of h h'] show ?thesis by simp
    qed
  qed
next
  assume "skip_zeros d i = Inr j"
  then show "i \<le> j" "j < length d" by (simp_all add: skip_zeros_bound)
next
  assume "recognized_tag t \<and> v \<le> 9999"
  then show "scanned_in_bounds (response_buffer ([SPACE, t, SPACE] @ zero_pad5 v @ [CR, LF]))"
    by (intro single_reply_in_bounds) simp_all
next
  assume "v \<le> 9999 \<and> w \<le> 9999"
  then show "scanned_in_bounds
          (response_buffer ('' Z '' @ zero_pad5 v @ '' z '' @ zero_pad5 w @ [CR, LF]))"
    by (intro combined_reply_in_bounds) simp_all
qed

theorem scan_within_buffer_witness:
  "(\<exists>h'. scan_fuel 128 0
            (example_handler\<lparr>explorir_data := response_buffer ('' Z 00100 z 00050'' @ [CR, LF])\<rparr>)
          = Some (Inr h')
        \<and> explorir_process_response
            (example_handler\<lparr>explorir_data := response_buffer ('' Z 00100 z 00050'' @ [CR, LF])\<rparr>)
          = Some (Inr (h'\<lparr>explorir_data := cleared\<rparr>)))
   \<and> (explorir_process_response
         (example_handler\<lparr>explorir_data := response_buffer ('' Z 00100 Z 00050'' @ [CR, LF])\<rparr>)
       = None
      \<or> explorir_process_response
         (example_handler\<lparr>explorir_data := response_buffer ('' Z 00100 Z 00050'' @ [CR, LF])\<rparr>)
       = Some (Inl ReadPastBuffer)
      \<or> explorir_process_response
         (example_handler\<lparr>explorir_data := response_buffer ('' Z 00100 Z 00050'' @ [CR, LF])\<rparr>)
       = Some (Inl ReadPastArray))
   \<and> (2 :: nat) \<le> 6 \<and> 6 < length ''K 00007''
   \<and> scanned_in_bounds (response_buffer ([SPACE, CHR ''K'', SPACE] @ zero_pad5 2 @ [CR, LF]))
   \<and> scanned_in_bounds
        (response_buffer ('' Z '' @ zero_pad5 100 @ '' z '' @ zero_pad5 50 @ [CR, LF]))"
proof -
  let ?h = "example_handler\<lparr>explorir_data := response_buffer ('' Z 00100 z 00050'' @ [CR, LF])\<rparr>"
  let ?g = "example_handler\<lparr>explorir_data := response_buffer ('' Z 00100 Z 00050'' @ [CR, LF])\<rparr>"
  have 1: "scanned_in_bounds (explorir_data ?h)"
    by (simp add: bounds_defs eval_defs)
  have 2: "\<not> scanned_in_bounds (explorir_data ?g)"
    by (simp add: bounds_defs eval_defs)
  have 3: "skip_zeros ''K 00007'' 2 = Inr 6"
    by (simp add: skip_zeros.simps)
  have 4: "recognized_tag (CHR ''K'') \<and> (2::nat) \<le> 9999"
    by (simp add: recognized_tag_def)
  have l: "length (explorir_data ?h) = 128"
    by (simp add: response_buffer_def cleared_def UART_RX_BUF_SIZE_def)
  show ?thesis
    using scan_within_buffer [of ?h "''K 00007''" 2 6 "CHR ''K''" 2 50]
      scan_within_buffer [of ?g "''K 00007''" 2 6 "CHR ''Z''" 100 50] 1 2 3 4 l
    by simp
qed

section \<open>Waiting and the session operations\<close>

lemma wait_loop_times_out:
  "\<forall>k. timer \<le> k \<and> k \<le> RESPONSE_TIMEOUT \<longrightarrow> \<not> rx k \<Longrightarrow> timer \<le> RESPONSE_TIMEOUT \<Longrightarrow>
   wait_loop rx timer h = h\<lparr>err_code := EXPLORIR_ERR_TIMEOUT\<rparr>"
proof (induction rx timer h rule: wait_loop.induct)
  case (1 rx timer h)
  show ?case
  proof (cases "RESPONSE_TIMEOUT \<le> timer")
    case True
    with 1(2,3) show ?thesis by (subst wait_loop.simps) simp
  next
    case False
    with 1(2) have "\<not> rx timer" by simp
    moreover from False 1 have "wait_loop rx (timer + 1) h = h\<lparr>err_code := EXPLORIR_ERR_TIMEOUT\<rparr>"
      by simp
    ultimately show ?thesis using False by (subst wait_loop.simps) simp
  qed
qed

lemma host_delivery_keeps_err_code:
  "host_delivery w = Inr w1 \<Longrightarrow> err_code (handler w1) = err_code (handler w)"
  by (auto simp: host_delivery_def explorir_update_data_def
      split: list.splits option.splits sum.splits if_splits)

lemma process_response_keeps_err_code:
  "explorir_process_response h = Some (Inr h') \<Longrightarrow> err_code h' = err_code h"
  by (auto simp: explorir_process_response_def split: option.splits sum.splits
      dest: scan_keeps)

lemma process_response_step_keeps_err_code:
  "process_response_step w = Some (Inr w') \<Longrightarrow> err_code (handler w') = err_code (handler w)"
  by (auto simp: process_response_step_def split: option.splits sum.splits
      dest!: host_delivery_keeps_err_code process_response_keeps_err_code)

lemma transmit_and_process_returns_stored:
  "snd (transmit_and_process msg sz w) = Some (Inr (r, w')) \<Longrightarrow>
     r = err_code (handler w) \<and> err_code (handler w') = err_code (handler w)"
  by (auto simp: transmit_and_process_def split: option.splits sum.splits
      dest!: process_response_step_keeps_err_code)

text \<open>
  Claim C6, as the code has it. \<open>explorir_wait_for_response\<close> sets \<open>err_code\<close> to
  \<open>EXPLORIR_ERR_TIMEOUT\<close>, and changes nothing else, when none of its reads of the
  flag (with \<open>timer\<close> from 0 to \<open>RESPONSE_TIMEOUT\<close>) sees it set. The operations do
  not call it: what \<open>explorir_request_filtered_co2\<close> returns, and what any operation
  returns that ends by transmitting, processing and returning \<open>err_code\<close>, is the
  \<open>err_code\<close> stored before the call.
\<close>

theorem timeout_only_in_wait_for_response:
  "((\<forall>k \<le> RESPONSE_TIMEOUT. \<not> rx k) \<longrightarrow>
      explorir_wait_for_response rx h = h\<lparr>err_code := EXPLORIR_ERR_TIMEOUT\<rparr>)
   \<and> (snd (explorir_request_filtered_co2 w) = Some (Inr (r, w')) \<longrightarrow>
      r = err_code (handler w))
   \<and> (snd (transmit_and_process msg sz w) = Some (Inr (r, w')) \<longrightarrow>
      r = err_code (handler w))"
proof (intro conjI impI)
  assume "\<forall>k \<le> RESPONSE_TIMEOUT. \<not> rx k"
  then show "explorir_wait_for_response rx h = h\<lparr>err_code := EXPLORIR_ERR_TIMEOUT\<rparr>"
    unfolding explorir_wait_for_response_def by (intro wait_loop_times_out) simp_all
next
  assume "snd (explorir_request_filtered_co2 w) = Some (Inr (r, w'))"
  then show "r = err_code (handler w)"
    unfolding explorir_request_filtered_co2_def
    by (auto dest: transmit_and_process_returns_stored)
next
  assume "snd (transmit_and_process msg sz w) = Some (Inr (r, w'))"
  then show "r = err_code (handler w)"
    by (auto dest: transmit_and_process_returns_stored)
qed

text \<open>
  No response is delivered in either run. With an earlier response still in the
  buffer the request returns \<open>EXPLORIR_SUCCESS\<close> and stores a new filtered value;
  with the cleared buffer it stops when the scan reads beyond the buffer.
\<close>

theorem request_without_delivery_counterexample:
  "explorir_request_filtered_co2
       \<lparr>handler = example_handler\<lparr>explorir_data := response_buffer ('' Z 00100'' @ [CR, LF])\<rparr>,
        incoming = []\<rparr>
     = ([''Z'' @ [CR, LF]],
        Some (Inr (EXPLORIR_SUCCESS,
                   \<lparr>handler = example_handler\<lparr>current_filtered_co2 := 100\<rparr>, incoming = []\<rparr>)))
   \<and> explorir_request_filtered_co2 example_world
     = ([''Z'' @ [CR, LF]], Some (Inl ReadPastBuffer))"
  by (simp add: explorir_request_filtered_co2_def transmit_and_process_def explorir_tx_def
      c_string_def process_response_step_def host_delivery_def example_world_def eval_defs)

theorem timeout_only_in_wait_for_response_witness:
  "explorir_wait_for_response (\<lambda>k. False) example_handler
     = example_handler\<lparr>err_code := EXPLORIR_ERR_TIMEOUT\<rparr>
   \<and> snd (explorir_request_filtered_co2
        \<lparr>handler = example_handler\<lparr>explorir_data := response_buffer ('' Z 00100'' @ [CR, LF])\<rparr>,
        incoming = []\<rparr>)
     = Some (Inr (EXPLORIR_SUCCESS,
                   \<lparr>handler = example_handler\<lparr>current_filtered_co2 := 100\<rparr>, incoming = []\<rparr>))
   \<and> err_code (handler
        \<lparr>handler = example_handler\<lparr>explorir_data := response_buffer ('' Z 00100'' @ [CR, LF])\<rparr>,
        incoming = []\<rparr>) = EXPLORIR_SUCCESS"
proof -
  let ?w = "\<lparr>handler = example_handler\<lparr>explorir_data := response_buffer ('' Z 00100'' @ [CR, LF])\<rparr>,
        incoming = []\<rparr>"
  have run: "snd (explorir_request_filtered_co2 ?w)
     = Some (Inr (EXPLORIR_SUCCESS,
                   \<lparr>handler = example_handler\<lparr>current_filtered_co2 := 100\<rparr>, incoming = []\<rparr>))"
     by (simp add: explorir_request_filtered_co2_def transmit_and_process_def explorir_tx_def
      c_string_def process_response_step_def host_delivery_def example_world_def eval_defs)
  with timeout_only_in_wait_for_response [where rx = "\<lambda>k. False" and h = example_handler
     and w = ?w and r = EXPLORIR_SUCCESS
     and w' = "\<lparr>handler = example_handler\<lparr>current_filtered_co2 := 100\<rparr>, incoming = []\<rparr>"]
  have "explorir_wait_for_response (\<lambda>k. False) example_handler
          = example_handler\<lparr>err_code := EXPLORIR_ERR_TIMEOUT\<rparr>
        \<and> EXPLORIR_SUCCESS = err_code (handler ?w)"
    by simp
  with run show ?thesis by simp
qed

section \<open>The initialisation sequence\<close>

lemma delivered_step:
  assumes inc: "incoming w = Some r # rest"
    and len: "length r = UART_RX_BUF_SIZE" "length (explorir_data (handler w)) = UART_RX_BUF_SIZE"
    and ret: "scan_returns r"
  shows "\<exists>h'. process_response_step w = Some (Inr \<lparr>handler = h', incoming = rest\<rparr>)
           \<and> err_code h' = err_code (handler w) \<and> explorir_data h' = cleared"
proof -
  let ?h1 = "(handler w)\<lparr>explorir_data := r\<rparr>"
  have u: "(of_nat UART_RX_BUF_SIZE :: 8 word) = 128" "unat (128 :: 8 word) = 128"
    by (simp_all add: UART_RX_BUF_SIZE_def)
  have hd: "host_delivery w = Inr \<lparr>handler = ?h1, incoming = rest\<rparr>"
    using inc len by (simp add: host_delivery_def explorir_update_data_def u)
       (simp add: UART_RX_BUF_SIZE_def)
  from ret obtain h2 where h2: "scan 0 ?h1 = Some (Inr h2)"
    unfolding scan_returns_def by fastforce
  let ?h' = "h2\<lparr>explorir_data := replicate UART_RX_BUF_SIZE NUL\<rparr>"
  have "process_response_step w = Some (Inr \<lparr>handler = ?h', incoming = rest\<rparr>)"
    by (simp add: process_response_step_def hd explorir_process_response_def h2)
  moreover from scan_keeps [OF h2] have "err_code ?h' = err_code (handler w)" by simp
  moreover have "explorir_data ?h' = cleared" by (simp add: cleared_def)
  ultimately show ?thesis by blast
qed

lemma delivered_exchange:
  assumes inc: "incoming w = Some r # rest"
    and len: "length r = UART_RX_BUF_SIZE" "length (explorir_data (handler w)) = UART_RX_BUF_SIZE"
    and ret: "scan_returns r" and sz: "sz \<le> length msg"
  shows "\<exists>h'. transmit_and_process msg sz w
             = ([take sz msg], Some (Inr (err_code (handler w), \<lparr>handler = h', incoming = rest\<rparr>)))
           \<and> err_code h' = err_code (handler w) \<and> explorir_data h' = cleared"
proof -
  from delivered_step [OF inc len ret] obtain h'
    where "process_response_step w = Some (Inr \<lparr>handler = h', incoming = rest\<rparr>)"
      and "err_code h' = err_code (handler w)" and "explorir_data h' = cleared"
    by blast
  with sz show ?thesis
    by (simp add: transmit_and_process_def explorir_tx_def)
qed

lemma record_err_code_same [simp]:
  "err_code h = r \<Longrightarrow> record_err_code (r, \<lparr>handler = h, incoming = xs\<rparr>) = \<lparr>handler = h, incoming = xs\<rparr>"
  by (simp add: record_err_code_def)

lemma then_run_returned [simp]:
  "then_run (sent, Some (Inr x)) f = (sent @ fst (f x), snd (f x))"
  by (simp add: then_run_def split: prod.splits)

lemma length_cleared [simp]: "length cleared = UART_RX_BUF_SIZE"
  by (simp add: cleared_def)

lemma delivered_set_operation_mode:
  assumes "incoming w = Some r # rest"
    and "length r = UART_RX_BUF_SIZE" "length (explorir_data (handler w)) = UART_RX_BUF_SIZE"
    and "scan_returns r"
  shows "\<exists>h'. explorir_set_operation_mode EXPLORIR_MODE_COMMAND w
             = ([''K 0'' @ [CR, LF]],
                Some (Inr (err_code (handler w), \<lparr>handler = h', incoming = rest\<rparr>)))
           \<and> err_code h' = err_code (handler w) \<and> explorir_data h' = cleared"
  using delivered_exchange [OF assms, of 5 "(c_string (''K x'' @ [CR, LF]))[2 := CHR ''0'']"]
  by (simp add: explorir_set_operation_mode_def EXPLORIR_MODE_COMMAND_def
        EXPLORIR_MODE_STREAMING_def EXPLORIR_MODE_POLLING_def c_string_def)

lemma delivered_request_scaling_factor:
  assumes "incoming w = Some r # rest"
    and "length r = UART_RX_BUF_SIZE" "length (explorir_data (handler w)) = UART_RX_BUF_SIZE"
    and "scan_returns r"
  shows "\<exists>h'. explorir_request_scaling_factor w
             = ([''.'' @ [CR, LF]],
                Some (Inr (err_code (handler w), \<lparr>handler = h', incoming = rest\<rparr>)))
           \<and> err_code h' = err_code (handler w) \<and> explorir_data h' = cleared"
  using delivered_exchange [OF assms, of 3 "c_string (''.'' @ [CR, LF])"]
  by (simp add: explorir_request_scaling_factor_def c_string_def)

lemma delivered_request_compensation:
  assumes "incoming w = Some r # rest"
    and "length r = UART_RX_BUF_SIZE" "length (explorir_data (handler w)) = UART_RX_BUF_SIZE"
    and "scan_returns r"
  shows "\<exists>h'. explorir_request_pressure_and_concetration_compensation w
             = ([''s'' @ [CR, LF]],
                Some (Inr (err_code (handler w), \<lparr>handler = h', incoming = rest\<rparr>)))
           \<and> err_code h' = err_code (handler w) \<and> explorir_data h' = cleared"
  using delivered_exchange [OF assms, of 3 "c_string (''s'' @ [CR, LF])"]
  by (simp add: explorir_request_pressure_and_concetration_compensation_def c_string_def)

lemma delivered_set_output_data_all:
  assumes "incoming w = Some r # rest"
    and "length r = UART_RX_BUF_SIZE" "length (explorir_data (handler w)) = UART_RX_BUF_SIZE"
    and "scan_returns r"
  shows "\<exists>h'. explorir_set_output_data_all w
             = ([''M 00006'' @ [CR, LF]],
                Some (Inr (err_code (handler w), \<lparr>handler = h', incoming = rest\<rparr>)))
           \<and> err_code h' = err_code (handler w) \<and> explorir_data h' = cleared"
  using delivered_exchange [OF assms, of 9 "c_string (''M 00006'' @ [CR, LF])"]
  by (simp add: explorir_set_output_data_all_def c_string_def)

lemma delivered_set_digital_filter:
  assumes "incoming w = Some r # rest"
    and "length r = UART_RX_BUF_SIZE" "length (explorir_data (handler w)) = UART_RX_BUF_SIZE"
    and "scan_returns r"
  shows "\<exists>h'. explorir_set_digital_filter (of_nat DIGITAL_FILTER_DEFAULT) w
             = ([''A 16'' @ [CR, LF]],
                Some (Inr (err_code (handler w), \<lparr>handler = h', incoming = rest\<rparr>)))
           \<and> err_code h' = err_code (handler w) \<and> explorir_data h' = cleared"
  using delivered_exchange [OF assms, of 6 "compile_message SET_DIGITAL_FILTER ''16''"]
  by (simp add: explorir_set_digital_filter_def DIGITAL_FILTER_DEFAULT_def
        MAX_DIGITAL_FILTER_def MIN_DIGITAL_FILTER_def sprintf_d_def decimal_16
        compile_message_eq)

lemma delivered_request_sensor_info:
  assumes "incoming w = Some r # Some r' # rest"
    and "length r = UART_RX_BUF_SIZE" "length (explorir_data (handler w)) = UART_RX_BUF_SIZE"
    and "scan_returns r" and "length r' = UART_RX_BUF_SIZE" and "scan_returns r'"
  shows "\<exists>h'. explorir_request_sensor_info w
             = ([''Y'' @ [CR, LF]],
                Some (Inr (err_code (handler w), \<lparr>handler = h', incoming = rest\<rparr>)))
           \<and> err_code h' = err_code (handler w) \<and> explorir_data h' = cleared"
proof -
  from delivered_step [OF assms(1-4)] obtain h1
    where 1: "process_response_step w = Some (Inr \<lparr>handler = h1, incoming = Some r' # rest\<rparr>)"
      and e1: "err_code h1 = err_code (handler w)" and d1: "explorir_data h1 = cleared"
    by blast
  have "\<exists>h'. process_response_step \<lparr>handler = h1, incoming = Some r' # rest\<rparr>
           = Some (Inr \<lparr>handler = h', incoming = rest\<rparr>)
         \<and> err_code h' = err_code (handler \<lparr>handler = h1, incoming = Some r' # rest\<rparr>)
         \<and> explorir_data h' = cleared"
    by (rule delivered_step [where r = r' and rest = rest]) (simp_all add: assms d1)
  then obtain h2 where 2: "process_response_step \<lparr>handler = h1, incoming = Some r' # rest\<rparr>
           = Some (Inr \<lparr>handler = h2, incoming = rest\<rparr>)"
      and e2: "err_code h2 = err_code h1" and d2: "explorir_data h2 = cleared"
    by auto
  show ?thesis
    by (simp add: explorir_request_sensor_info_def explorir_tx_def c_string_def 1 2 e1 e2 d2)
qed

text \<open>
  Claim C9, as the code has it. When the host delivers a whole-buffer response on
  which the scanner returns before each of the eight scans, \<open>explorir_init\<close> sends its
  seven frames in order and returns; afterwards the mode is the default, both CO2
  values are 0 and the digital filter is 16. No step of it can reject its argument,
  and \<open>err_code\<close>, assigned from each step's return value, ends as it began.
\<close>

theorem init_runs_every_step:
  assumes inc: "incoming w = map Some rs @ rest" and n: "length rs = 8"
    and ok: "\<forall>r \<in> set rs. length r = UART_RX_BUF_SIZE \<and> scan_returns r"
    and len: "length (explorir_data (handler w)) = UART_RX_BUF_SIZE"
  shows "\<exists>h'. explorir_init w = (init_frames, Some (Inr \<lparr>handler = h', incoming = rest\<rparr>))
           \<and> current_mode h' = EXPLORIR_MODE_DEFAULT
           \<and> current_filtered_co2 h' = 0 \<and> current_unfiltered_co2 h' = 0
           \<and> digital_filter h' = 16
           \<and> err_code h' = err_code (handler w)"
proof -
  from n obtain r1 r2 r3 r4 r5 r6 r7 r8 where rs: "rs = [r1, r2, r3, r4, r5, r6, r7, r8]"
    by (auto simp: length_Suc_conv numeral_eq_Suc)
  note ok' = ok [unfolded rs, simplified]
  let ?e = "err_code (handler w)"
  from inc rs have i1: "incoming w = Some r1 # Some r2 # Some r3 # Some r4 # Some r5 # Some r6 # Some r7 # Some r8 # rest"
    by simp
  from delivered_set_operation_mode [OF i1 _ len] ok' obtain h1
    where s1: "explorir_set_operation_mode EXPLORIR_MODE_COMMAND w
             = ([''K 0'' @ [CR, LF]],
                Some (Inr (?e, \<lparr>handler = h1, incoming = Some r2 # Some r3 # Some r4 # Some r5 # Some r6 # Some r7 # Some r8 # rest\<rparr>)))"
      and e1: "err_code h1 = ?e" and d1: "explorir_data h1 = cleared"
    by blast
  let ?w1 = "\<lparr>handler = h1, incoming = Some r2 # Some r3 # Some r4 # Some r5 # Some r6 # Some r7 # Some r8 # rest\<rparr>"
  have "\<exists>h'. explorir_request_sensor_info ?w1
             = ([''Y'' @ [CR, LF]],
                Some (Inr (err_code (handler ?w1), \<lparr>handler = h', incoming = Some r4 # Some r5 # Some r6 # Some r7 # Some r8 # rest\<rparr>)))
           \<and> err_code h' = err_code (handler ?w1) \<and> explorir_data h' = cleared"
    by (rule delivered_request_sensor_info [where r = r2 and r' = r3]) (simp_all add: ok' d1)
  then obtain h2
    where s2: "explorir_request_sensor_info ?w1
             = ([''Y'' @ [CR, LF]],
                Some (Inr (?e, \<lparr>handler = h2, incoming = Some r4 # Some r5 # Some r6 # Some r7 # Some r8 # rest\<rparr>)))"
      and e2: "err_code h2 = ?e" and d2: "explorir_data h2 = cleared"
    using e1 by auto
  let ?w2 = "\<lparr>handler = h2, incoming = Some r4 # Some r5 # Some r6 # Some r7 # Some r8 # rest\<rparr>"
  have "\<exists>h'. explorir_request_scaling_factor ?w2
             = ([''.'' @ [CR, LF]],
                Some (Inr (err_code (handler ?w2), \<lparr>handler = h', incoming = Some r5 # Some r6 # Some r7 # Some r8 # rest\<rparr>)))
           \<and> err_code h' = err_code (handler ?w2) \<and> explorir_data h' = cleared"
    by (rule delivered_request_scaling_factor [where r = r4]) (simp_all add: ok' d2)
  then obtain h3
    where s3: "explorir_request_scaling_factor ?w2
             = ([''.'' @ [CR, LF]],
                Some (Inr (?e, \<lparr>handler = h3, incoming = Some r5 # Some r6 # Some r7 # Some r8 # rest\<rparr>)))"
      and e3: "err_code h3 = ?e" and d3: "explorir_data h3 = cleared"
    using e2 by auto
  let ?w3 = "\<lparr>handler = h3, incoming = Some r5 # Some r6 # Some r7 # Some r8 # rest\<rparr>"
  have "\<exists>h'. explorir_set_digital_filter (of_nat DIGITAL_FILTER_DEFAULT) ?w3
             = ([''A 16'' @ [CR, LF]],
                Some (Inr (err_code (handler ?w3), \<lparr>handler = h', incoming = Some r6 # Some r7 # Some r8 # rest\<rparr>)))
           \<and> err_code h' = err_code (handler ?w3) \<and> explorir_data h' = cleared"
    by (rule delivered_set_digital_filter [where r = r5]) (simp_all add: ok' d3)
  then obtain h4
    where s4: "explorir_set_digital_filter (of_nat DIGITAL_FILTER_DEFAULT) ?w3
             = ([''A 16'' @ [CR, LF]],
                Some (Inr (?e, \<lparr>handler = h4, incoming = Some r6 # Some r7 # Some r8 # rest\<rparr>)))"
      and e4: "err_code h4 = ?e" and d4: "explorir_data h4 = cleared"
    using e3 by auto
  let ?w4 = "\<lparr>handler = h4, incoming = Some r6 # Some r7 # Some r8 # rest\<rparr>"
  have "\<exists>h'. explorir_request_pressure_and_concetration_compensation ?w4
             = ([''s'' @ [CR, LF]],
                Some (Inr (err_code (handler ?w4), \<lparr>handler = h', incoming = Some r7 # Some r8 # rest\<rparr>)))
           \<and> err_code h' = err_code (handler ?w4) \<and> explorir_data h' = cleared"
    by (rule delivered_request_compensation [where r = r6]) (simp_all add: ok' d4)
  then obtain h5
    where s5: "explorir_request_pressure_and_concetration_compensation ?w4
             = ([''s'' @ [CR, LF]],
                Some (Inr (?e, \<lparr>handler = h5, incoming = Some r7 # Some r8 # rest\<rparr>)))"
      and e5: "err_code h5 = ?e" and d5: "explorir_data h5 = cleared"
    using e4 by auto
  let ?w5 = "\<lparr>handler = h5, incoming = Some r7 # Some r8 # rest\<rparr>"
  have "\<exists>h'. explorir_set_output_data_all ?w5
             = ([''M 00006'' @ [CR, LF]],
                Some (Inr (err_code (handler ?w5), \<lparr>handler = h', incoming = Some r8 # rest\<rparr>)))
           \<and> err_code h' = err_code (handler ?w5) \<and> explorir_data h' = cleared"
    by (rule delivered_set_output_data_all [where r = r7]) (simp_all add: ok' d5)
  then obtain h6
    where s6: "explorir_set_output_data_all ?w5
             = ([''M 00006'' @ [CR, LF]],
                Some (Inr (?e, \<lparr>handler = h6, incoming = Some r8 # rest\<rparr>)))"
      and e6: "err_code h6 = ?e" and d6: "explorir_data h6 = cleared"
    using e5 by auto
  let ?w6 = "\<lparr>handler = h6, incoming = Some r8 # rest\<rparr>"
  have "\<exists>h'. explorir_set_operation_mode EXPLORIR_MODE_COMMAND ?w6
             = ([''K 0'' @ [CR, LF]],
                Some (Inr (err_code (handler ?w6), \<lparr>handler = h', incoming = rest\<rparr>)))
           \<and> err_code h' = err_code (handler ?w6) \<and> explorir_data h' = cleared"
    by (rule delivered_set_operation_mode [where r = r8]) (simp_all add: ok' d6)
  then obtain h7
    where s7: "explorir_set_operation_mode EXPLORIR_MODE_DEFAULT ?w6
             = ([''K 0'' @ [CR, LF]],
                Some (Inr (?e, \<lparr>handler = h7, incoming = rest\<rparr>)))"
      and e7: "err_code h7 = ?e" and d7: "explorir_data h7 = cleared"
    using e6 by (auto simp: EXPLORIR_MODE_DEFAULT_def)
  have "explorir_init w = (init_frames, Some (Inr \<lparr>handler = h7
            \<lparr>current_mode := EXPLORIR_MODE_DEFAULT,
             current_filtered_co2 := 0,
             current_unfiltered_co2 := 0,
             digital_filter := of_nat DIGITAL_FILTER_DEFAULT\<rparr>, incoming = rest\<rparr>))"
    unfolding explorir_init_def
    by (simp add: s1 e1 s2 e2 s3 e3 s4 e4 s5 e5 s6 e6 s7 e7 init_frames_def Let_def
          del: map_append map_eq_conv)
  then show ?thesis
    by (intro exI [of _ "h7\<lparr>current_mode := EXPLORIR_MODE_DEFAULT,
             current_filtered_co2 := 0,
             current_unfiltered_co2 := 0,
             digital_filter := of_nat DIGITAL_FILTER_DEFAULT\<rparr>"])
       (simp add: e7 DIGITAL_FILTER_DEFAULT_def)
qed

lemma init_responses_return:
  "\<forall>r \<in> set (map response_buffer init_responses). length r = UART_RX_BUF_SIZE \<and> scan_returns r"
  unfolding init_responses_def scan_returns_def
  by (simp add: response_buffer_def cleared_def UART_RX_BUF_SIZE_def scan.simps read_field_def
        skip_zeros.simps memcpy5_def isspace_def isdigit_def replicate_numeral)

theorem init_runs_every_step_witness:
  "\<exists>h'. explorir_init init_world = (init_frames, Some (Inr \<lparr>handler = h', incoming = []\<rparr>))
           \<and> current_mode h' = EXPLORIR_MODE_DEFAULT
           \<and> current_filtered_co2 h' = 0 \<and> current_unfiltered_co2 h' = 0
           \<and> digital_filter h' = 16
           \<and> err_code h' = EXPLORIR_ERR_TIMEOUT"
proof -
  have 1: "incoming init_world = map Some (map response_buffer init_responses) @ []"
    by (simp add: init_world_def)
  have 2: "length (map response_buffer init_responses) = 8"
    by (simp add: init_responses_def)
  have 3: "length (explorir_data (handler init_world)) = UART_RX_BUF_SIZE"
    by (simp add: init_world_def example_handler_def)
  have 4: "err_code (handler init_world) = EXPLORIR_ERR_TIMEOUT"
    by (simp add: init_world_def example_handler_def)
  from init_runs_every_step [OF 1 2 init_responses_return 3] show ?thesis
    unfolding 4 .
qed

text \<open>
  With the cleared buffer and no response delivered, the first scan of
  \<open>explorir_init\<close> reads beyond the buffer: one frame has been sent, and the
  remaining steps and the resets are not reached.
\<close>

theorem init_without_delivery_counterexample:
  "explorir_init example_world = ([''K 0'' @ [CR, LF]], Some (Inl ReadPastBuffer))"
  by (simp add: explorir_init_def explorir_set_operation_mode_def
        EXPLORIR_MODE_COMMAND_def EXPLORIR_MODE_STREAMING_def EXPLORIR_MODE_POLLING_def
        transmit_and_process_def explorir_tx_def c_string_def process_response_step_def
        host_delivery_def example_world_def then_run_def eval_defs)

text \<open>
  The run of \<open>explorir_init\<close> on \<open>init_world\<close>, evaluated: the scaling factor and
  the compensation are those of the responses, the CO2 values are reset.
\<close>

lemma init_example:
  "explorir_init init_world
     = (init_frames,
        Some (Inr \<lparr>handler = example_handler\<lparr>err_code := EXPLORIR_ERR_TIMEOUT,
                      scaling_factor := 10, digital_filter := 16,
                      pressure_and_concentration_compensation := 8192\<rparr>,
                  incoming = []\<rparr>))"
  by code_simp

end
